theory Spec2Isabelle
  imports Main "HOL-Library.Sublist"
begin

section \<open>The generic hashtable\<close>

text \<open>
  The package \<^verbatim>\<open>hashtable\<close> of the write-up on Go generics: a table of \<open>m\<close> buckets,
  each bucket a slice of key/value pairs, and a hash function supplied by the caller.
  The Go code mutates the table through a pointer receiver; the model passes the table
  in and returns the updated one. A run-time panic of the Go code is a value of type
  \<open>error\<close>: an index out of range, a length that \<^verbatim>\<open>make\<close> refuses, and the comparison
  of two interface values whose common dynamic type is not comparable.

  Go's \<^verbatim>\<open>int\<close> is modelled as \<open>int\<close>: the code does no arithmetic on the bucket count
  or on the hash function's result, it only compares the result with the bounds of the
  bucket array when indexing. The hash function is a HOL function, hence pure and total.
  Each bucket slice is owned by its slot of \<^verbatim>\<open>t.table\<close> alone (no other slice shares its
  backing array), so a bucket is modelled as a list by value.
\<close>

datatype error = IndexOutOfRange | MakesliceLenOutOfRange | UncomparableType

subsection \<open>The comparison of keys\<close>

text \<open>
  The code compares keys with Go's \<^verbatim>\<open>==\<close> at the key type \<open>K\<close> (\<^verbatim>\<open>key == kv.Key\<close>). What
  \<^verbatim>\<open>==\<close> does depends on \<open>K\<close>, so the model takes it as a parameter \<open>cmp\<close>: \<open>cmp a b\<close>
  is \<open>Some True\<close> or \<open>Some False\<close> when \<^verbatim>\<open>a == b\<close> evaluates to that, and \<open>None\<close> when
  the comparison panics.
\<close>

type_synonym 'k comparison = "'k \<Rightarrow> 'k \<Rightarrow> bool option"

text \<open>
  On integer, string, boolean and pointer keys \<^verbatim>\<open>==\<close> never panics and holds exactly
  between identical values.
\<close>

definition go_eq :: "'k comparison" where
  "go_eq a b = Some (a = b)"

text \<open>
  Three values of \<^verbatim>\<open>float64\<close>: a NaN and the two zeros. A NaN is equal to nothing,
  itself included; the two zeros are equal to each other.
\<close>

datatype float_key = NaN | PosZero | NegZero

definition float_eq :: "float_key comparison" where
  "float_eq a b = Some (a \<noteq> NaN \<and> b \<noteq> NaN)"

text \<open>
  Values of an interface type (\<^verbatim>\<open>any\<close>) that hold an \<^verbatim>\<open>int\<close> or an \<^verbatim>\<open>[]int\<close>. Two
  interface values of different dynamic types are unequal; comparing two that both hold
  a slice panics, a slice type being not comparable.
\<close>

datatype any_key = IntKey int | SliceKey "int list"

fun any_eq :: "any_key comparison" where
  "any_eq (IntKey a) (IntKey b) = Some (a = b)"
| "any_eq (SliceKey a) (SliceKey b) = None"
| "any_eq (IntKey a) (SliceKey b) = Some False"
| "any_eq (SliceKey a) (IntKey b) = Some False"

subsection \<open>The data and the three functions\<close>

text \<open>\<^verbatim>\<open>type kv(type K comparable, V interface{}) struct { Key K; Value V }\<close>\<close>

record ('k, 'v) kv =
  Key :: 'k
  Value :: 'v

text \<open>
  \<^verbatim>\<open>type Table(type K comparable, V interface{}) struct
     { hash func(key K, m int) int; m int; table [][]kv }\<close>
\<close>

record ('k, 'v) Table =
  hash :: "'k \<Rightarrow> int \<Rightarrow> int"
  m :: int
  table :: "('k, 'v) kv list list"

text \<open>
  The largest length that \<^verbatim>\<open>make([][](kv(K, V)), m)\<close> accepts. Go's run time panics with
  \<^verbatim>\<open>makeslice: len out of range\<close> when the length is negative or the elements would take
  more than \<^verbatim>\<open>maxAlloc\<close> bytes. The value here is that of the 64-bit platforms with a heap
  address space of 48 bits: \<^verbatim>\<open>maxAlloc\<close> is \<open>2 ^ 48\<close> bytes, and an element, a slice
  header, takes 24 bytes.
\<close>

definition makeslice_max :: int where
  "makeslice_max = 2 ^ 48 div 24"

text \<open>
  \<^verbatim>\<open>New\<close>: the buckets that \<^verbatim>\<open>make\<close> returns are nil slices. Memory itself is not
  modelled: a length that passes the check of \<^verbatim>\<open>make\<close> is allocated, and \<^verbatim>\<open>append\<close> always
  finds room.
\<close>

definition New :: "int \<Rightarrow> ('k \<Rightarrow> int \<Rightarrow> int) \<Rightarrow> error + ('k, 'v) Table" where
  "New n h =
     (if n < 0 \<or> makeslice_max < n then Inl MakesliceLenOutOfRange
      else Inr \<lparr>hash = h, m = n, table = replicate (nat n) []\<rparr>)"

text \<open>
  The loop \<^verbatim>\<open>for j, kv := range t.table[i] { if key == kv.Key { ... return } }\<close>, which
  \<^verbatim>\<open>Get\<close> and \<^verbatim>\<open>Insert\<close> both run: the index \<open>j\<close> of the first entry whose key compares
  equal to \<open>key\<close>, \<open>None\<close> when the loop runs to its end, and the panic of the first
  comparison that panics. The last argument is the index of the head of the remaining
  bucket.
\<close>

fun range_find ::
  "'k comparison \<Rightarrow> 'k \<Rightarrow> ('k, 'v) kv list \<Rightarrow> nat \<Rightarrow> error + nat option" where
  "range_find cmp key [] j = Inr None"
| "range_find cmp key (e # es) j =
     (case cmp key (Key e) of
        None \<Rightarrow> Inl UncomparableType
      | Some True \<Rightarrow> Inr (Some j)
      | Some False \<Rightarrow> range_find cmp key es (Suc j))"

text \<open>
  \<^verbatim>\<open>Get\<close>. The zero value of the value type (\<^verbatim>\<open>var zero V\<close>) is the parameter \<open>zeroV\<close>.
  The result is the returned pair together with the table after the call. The test on
  \<open>i\<close> is the bounds check that Go's run time makes at the index expression
  \<^verbatim>\<open>t.table[i]\<close>, before the loop starts; the source has no check of its own, in \<^verbatim>\<open>Get\<close>
  or in \<^verbatim>\<open>Insert\<close>. The index \<open>j\<close> comes from the \<^verbatim>\<open>range\<close> loop over the same bucket
  and is within it.
\<close>

definition Get ::
  "'k comparison \<Rightarrow> 'v \<Rightarrow> ('k, 'v) Table \<Rightarrow> 'k \<Rightarrow> error + (('v \<times> bool) \<times> ('k, 'v) Table)" where
  "Get cmp zeroV t key =
     (let i = hash t key (m t) in
      if i < 0 \<or> int (length (table t)) \<le> i then Inl IndexOutOfRange
      else
        (case range_find cmp key (table t ! nat i) 0 of
           Inl e \<Rightarrow> Inl e
         | Inr (Some j) \<Rightarrow> Inr ((Value (table t ! nat i ! j), True), t)
         | Inr None \<Rightarrow> Inr ((zeroV, False), t)))"

text \<open>\<^verbatim>\<open>Insert\<close>: overwrite the value of the entry found, or append a new entry.\<close>

definition Insert ::
  "'k comparison \<Rightarrow> ('k, 'v) Table \<Rightarrow> 'k \<Rightarrow> 'v \<Rightarrow> error + ('k, 'v) Table" where
  "Insert cmp t key val =
     (let i = hash t key (m t) in
      if i < 0 \<or> int (length (table t)) \<le> i then Inl IndexOutOfRange
      else
        (case range_find cmp key (table t ! nat i) 0 of
           Inl e \<Rightarrow> Inl e
         | Inr (Some j) \<Rightarrow>
             Inr (t\<lparr>table := (table t)
                    [nat i := (table t ! nat i)[j := (table t ! nat i ! j)\<lparr>Value := val\<rparr>]]\<rparr>)
         | Inr None \<Rightarrow>
             Inr (t\<lparr>table := (table t)
                    [nat i := table t ! nat i @ [\<lparr>Key = key, Value = val\<rparr>]]\<rparr>)))"

section \<open>Sequences of operations\<close>

text \<open>
  A caller's use of a table: a sequence of calls of \<^verbatim>\<open>Insert\<close> and \<^verbatim>\<open>Get\<close>, run in order
  from a given table. A panic ends the run. \<open>from_New\<close> runs the sequence on the table
  that \<^verbatim>\<open>New\<close> returns.
\<close>

datatype ('k, 'v) op = OpInsert 'k 'v | OpGet 'k

fun apply_op ::
  "'k comparison \<Rightarrow> 'v \<Rightarrow> ('k, 'v) Table \<Rightarrow> ('k, 'v) op \<Rightarrow> error + ('k, 'v) Table" where
  "apply_op cmp zeroV t (OpInsert k v) = Insert cmp t k v"
| "apply_op cmp zeroV t (OpGet k) =
     (case Get cmp zeroV t k of Inl e \<Rightarrow> Inl e | Inr (r, t') \<Rightarrow> Inr t')"

fun run ::
  "'k comparison \<Rightarrow> 'v \<Rightarrow> ('k, 'v) Table \<Rightarrow> ('k, 'v) op list \<Rightarrow> error + ('k, 'v) Table" where
  "run cmp zeroV t [] = Inr t"
| "run cmp zeroV t (x # xs) =
     (case apply_op cmp zeroV t x of Inl e \<Rightarrow> Inl e | Inr t' \<Rightarrow> run cmp zeroV t' xs)"

definition from_New ::
  "'k comparison \<Rightarrow> 'v \<Rightarrow> int \<Rightarrow> ('k \<Rightarrow> int \<Rightarrow> int) \<Rightarrow> ('k, 'v) op list \<Rightarrow>
     error + ('k, 'v) Table" where
  "from_New cmp zeroV n h xs =
     (case New n h of Inl e \<Rightarrow> Inl e | Inr t \<Rightarrow> run cmp zeroV t xs)"

text \<open>The keys a sequence of operations inserts, in the order of the calls.\<close>

fun inserted_keys :: "('k, 'v) op list \<Rightarrow> 'k list" where
  "inserted_keys [] = []"
| "inserted_keys (OpInsert k v # xs) = k # inserted_keys xs"
| "inserted_keys (OpGet k # xs) = inserted_keys xs"

text \<open>A list of keys with every occurrence of a key but its first removed.\<close>

fun first_occurrences :: "'a list \<Rightarrow> 'a list" where
  "first_occurrences [] = []"
| "first_occurrences (x # xs) = x # removeAll x (first_occurrences xs)"

section \<open>Predicates of the specification\<close>

text \<open>
  The caller's obligation: the hash function \<open>h\<close> returns an index in \<open>[0, n)\<close> for
  every key, \<open>n\<close> being the bucket count.
\<close>

definition in_range :: "('k \<Rightarrow> int \<Rightarrow> int) \<Rightarrow> int \<Rightarrow> bool" where
  "in_range h n \<longleftrightarrow> (\<forall>k. 0 \<le> h k n \<and> h k n < n)"

text \<open>The bucket array has as many buckets as the stored bucket count says.\<close>

definition m_buckets :: "('k, 'v) Table \<Rightarrow> bool" where
  "m_buckets t \<longleftrightarrow> int (length (table t)) = m t"

text \<open>
  Properties of the comparison of a key type: it never panics; every key is equal to
  itself; only identical keys are equal.
\<close>

definition cmp_total :: "'k comparison \<Rightarrow> bool" where
  "cmp_total cmp \<longleftrightarrow> (\<forall>a b. cmp a b \<noteq> None)"

definition cmp_refl :: "'k comparison \<Rightarrow> bool" where
  "cmp_refl cmp \<longleftrightarrow> (\<forall>a. cmp a a = Some True)"

definition cmp_sound :: "'k comparison \<Rightarrow> bool" where
  "cmp_sound cmp \<longleftrightarrow> (\<forall>a b. cmp a b = Some True \<longrightarrow> a = b)"

text \<open>The entry at position \<open>j\<close> of bucket \<open>i\<close> exists and has key \<open>k\<close>.\<close>

definition entry_at :: "('k, 'v) Table \<Rightarrow> nat \<Rightarrow> nat \<Rightarrow> 'k \<Rightarrow> bool" where
  "entry_at t i j k \<longleftrightarrow>
     i < length (table t) \<and> j < length (table t ! i) \<and> Key (table t ! i ! j) = k"

text \<open>
  The invariant of the data model, bucket by bucket: no key occurs twice in a bucket,
  and every entry lies in the bucket its key hashes to.
\<close>

definition bucket_inv :: "('k, 'v) Table \<Rightarrow> bool" where
  "bucket_inv t \<longleftrightarrow>
     (\<forall>i < length (table t).
        distinct (map Key (table t ! i)) \<and>
        (\<forall>e \<in> set (table t ! i). hash t (Key e) (m t) = int i))"

section \<open>Concrete tables\<close>

text \<open>
  A hash function on keys of type \<open>nat\<close> that is in range for every positive bucket
  count, and a table of two buckets that holds the key \<open>0\<close> with the value \<open>5\<close>.
  They are the inputs at which the theorems below are instantiated.
\<close>

definition ex_hash :: "nat \<Rightarrow> int \<Rightarrow> int" where
  "ex_hash k n = int k mod n"

definition ex_table :: "(nat, int) Table" where
  "ex_table = \<lparr>hash = ex_hash, m = 2, table = [[\<lparr>Key = 0, Value = 5\<rparr>], []]\<rparr>"

text \<open>
  A hash function that ignores the bucket count, and so is out of range for every key
  from the bucket count on, in the empty table of two buckets.
\<close>

definition id_hash :: "nat \<Rightarrow> int \<Rightarrow> int" where
  "id_hash k n = int k"

definition bad_table :: "(nat, int) Table" where
  "bad_table = \<lparr>hash = id_hash, m = 2, table = [[], []]\<rparr>"

text \<open>
  The hash function that sends every key to bucket \<open>0\<close>; it is in range for every
  positive bucket count. With it, tables of one bucket on \<^verbatim>\<open>float64\<close> keys: the empty one,
  and the ones that the code reaches from it by \<^verbatim>\<open>Insert(NaN, 1)\<close> and then
  \<^verbatim>\<open>Insert(NaN, 2)\<close>. On keys of the interface type, the table that holds the slice
  \<^verbatim>\<open>[]int{1}\<close> as a key.
\<close>

definition zero_hash :: "'k \<Rightarrow> int \<Rightarrow> int" where
  "zero_hash k n = 0"

definition float_t0 :: "(float_key, int) Table" where
  "float_t0 = \<lparr>hash = zero_hash, m = 1, table = [[]]\<rparr>"

definition float_t1 :: "(float_key, int) Table" where
  "float_t1 = \<lparr>hash = zero_hash, m = 1, table = [[\<lparr>Key = NaN, Value = 1\<rparr>]]\<rparr>"

definition float_t2 :: "(float_key, int) Table" where
  "float_t2 =
     \<lparr>hash = zero_hash, m = 1, table = [[\<lparr>Key = NaN, Value = 1\<rparr>, \<lparr>Key = NaN, Value = 2\<rparr>]]\<rparr>"

definition any_t1 :: "(any_key, int) Table" where
  "any_t1 = \<lparr>hash = zero_hash, m = 1, table = [[\<lparr>Key = SliceKey [1], Value = 1\<rparr>]]\<rparr>"

text \<open>
  A hash function on \<^verbatim>\<open>float64\<close> keys that goes by the sign bit, and so sends the two
  zeros to different buckets, and the table of two buckets that the code reaches with
  it by \<^verbatim>\<open>Insert(+0.0, 1)\<close> and then \<^verbatim>\<open>Insert(-0.0, 2)\<close>. The table of one bucket that
  holds the key \<^verbatim>\<open>+0.0\<close>.
\<close>

definition sign_hash :: "float_key \<Rightarrow> int \<Rightarrow> int" where
  "sign_hash k n = (if k = NegZero then 1 else 0)"

definition zeros_table :: "(float_key, int) Table" where
  "zeros_table =
     \<lparr>hash = sign_hash, m = 2,
      table = [[\<lparr>Key = PosZero, Value = 1\<rparr>], [\<lparr>Key = NegZero, Value = 2\<rparr>]]\<rparr>"

definition float_z1 :: "(float_key, int) Table" where
  "float_z1 = \<lparr>hash = zero_hash, m = 1, table = [[\<lparr>Key = PosZero, Value = 1\<rparr>]]\<rparr>"

section \<open>The loop over a bucket\<close>

lemma range_find_error: "range_find cmp k es j = Inl e \<Longrightarrow> e = UncomparableType"
  by (induction es arbitrary: j) (auto split: option.splits bool.splits)

lemma range_find_total: "cmp_total cmp \<Longrightarrow> \<exists>r. range_find cmp k es j = Inr r"
  by (induction es arbitrary: j) (auto simp: cmp_total_def split: option.splits bool.splits)

lemma range_find_None:
  "range_find cmp k es j = Inr None \<longleftrightarrow> (\<forall>e \<in> set es. cmp k (Key e) = Some False)"
  by (induction es arbitrary: j) (auto split: option.splits bool.splits)

lemma range_find_Some:
  "range_find cmp k es j = Inr (Some r) \<Longrightarrow>
     j \<le> r \<and> r - j < length es \<and> cmp k (Key (es ! (r - j))) = Some True \<and>
     (\<forall>q < r - j. cmp k (Key (es ! q)) = Some False)"
proof (induction es arbitrary: j)
  case Nil
  then show ?case by simp
next
  case (Cons e es)
  show ?case
  proof (cases "cmp k (Key e) = Some True")
    case True
    with Cons.prems show ?thesis by simp
  next
    case False
    with Cons.prems have f: "cmp k (Key e) = Some False"
      and "range_find cmp k es (Suc j) = Inr (Some r)"
      by (auto split: option.splits bool.splits)
    from Cons.IH [OF this(2)] have ih: "Suc j \<le> r" "r - Suc j < length es"
      "cmp k (Key (es ! (r - Suc j))) = Some True"
      "\<forall>q < r - Suc j. cmp k (Key (es ! q)) = Some False" by auto
    have "r - j = Suc (r - Suc j)" using ih(1) by simp
    with ih f show ?thesis by (auto simp: nth_Cons')
  qed
qed

lemma range_find_Some_less: "range_find cmp k es 0 = Inr (Some j) \<Longrightarrow> j < length es"
  using range_find_Some [of cmp k es 0 j] by simp

lemma range_find_Some_key:
  "range_find cmp k es 0 = Inr (Some j) \<Longrightarrow> cmp k (Key (es ! j)) = Some True"
  using range_find_Some [of cmp k es 0 j] by simp

lemma range_find_Some_first:
  "range_find cmp k es 0 = Inr (Some j) \<Longrightarrow> q < j \<Longrightarrow> cmp k (Key (es ! q)) = Some False"
  using range_find_Some [of cmp k es 0 j] by simp

lemma range_find_keys:
  "map Key es = map Key fs \<Longrightarrow> range_find cmp k es j = range_find cmp k fs j"
  by (induction es arbitrary: fs j) (auto split: option.splits bool.splits)

lemma map_Key_overwrite: "map Key (es[j := (es ! j)\<lparr>Value := v\<rparr>]) = map Key es"
  by (cases "j < length es") (auto simp: list_eq_iff_nth_eq nth_list_update)

lemma range_find_overwrite:
  "range_find cmp k (es[j := (es ! j)\<lparr>Value := v\<rparr>]) q = range_find cmp k es q"
  by (rule range_find_keys) (rule map_Key_overwrite)

lemma range_find_snoc:
  "range_find cmp k es j = Inr None \<Longrightarrow>
     range_find cmp k (es @ [e]) j =
       (case cmp k (Key e) of
          None \<Rightarrow> Inl UncomparableType
        | Some True \<Rightarrow> Inr (Some (j + length es))
        | Some False \<Rightarrow> Inr None)"
  by (induction es arbitrary: j) (auto split: option.splits bool.splits)

lemma range_find_snoc_found:
  "range_find cmp k es j = Inr (Some r) \<Longrightarrow> range_find cmp k (es @ [e]) j = Inr (Some r)"
  by (induction es arbitrary: j) (auto split: option.splits bool.splits)

lemma range_find_snoc_error:
  "range_find cmp k es j = Inl x \<Longrightarrow> range_find cmp k (es @ [e]) j = Inl x"
  by (induction es arbitrary: j) (auto split: option.splits bool.splits)

lemma range_find_go_eq_None:
  "range_find go_eq k es j = Inr None \<longleftrightarrow> k \<notin> Key ` set es"
  by (auto simp: range_find_None go_eq_def)

section \<open>Comparisons\<close>

lemma cmp_is_go_eq:
  assumes "cmp_total cmp" and "cmp_refl cmp" and "cmp_sound cmp"
  shows "cmp = go_eq"
proof (intro ext)
  fix a b
  show "cmp a b = go_eq a b"
  proof (cases "a = b")
    case True
    then show ?thesis using assms(2) by (simp add: cmp_refl_def go_eq_def)
  next
    case False
    then have "cmp a b \<noteq> Some True" using assms(3) by (auto simp: cmp_sound_def)
    moreover have "cmp a b \<noteq> None" using assms(1) by (simp add: cmp_total_def)
    ultimately show ?thesis using False by (cases "cmp a b") (auto simp: go_eq_def)
  qed
qed

lemma cmp_soundD: "cmp_sound cmp \<Longrightarrow> cmp a b = Some True \<Longrightarrow> a = b"
  unfolding cmp_sound_def by blast

lemma cmp_totalD: "cmp_total cmp \<Longrightarrow> cmp a b \<noteq> None"
  unfolding cmp_total_def by blast

lemma cmp_reflD: "cmp_refl cmp \<Longrightarrow> cmp a a = Some True"
  unfolding cmp_refl_def by blast

lemma go_eq_props: "cmp_total go_eq" "cmp_refl go_eq" "cmp_sound go_eq"
  by (simp_all add: cmp_total_def cmp_refl_def cmp_sound_def go_eq_def)

section \<open>Lists of keys and runs of operations\<close>

lemma first_occurrences_set: "set (first_occurrences xs) = set xs"
  by (induction xs) auto

lemma first_occurrences_distinct: "distinct (first_occurrences xs)"
  by (induction xs) (auto simp: distinct_removeAll)

lemma first_occurrences_snoc:
  "first_occurrences (xs @ [k]) =
     (if k \<in> set xs then first_occurrences xs else first_occurrences xs @ [k])"
  by (induction xs) (auto simp: first_occurrences_set)

lemma run_append:
  "run cmp z t (xs @ ys) =
     (case run cmp z t xs of Inl e \<Rightarrow> Inl e | Inr t' \<Rightarrow> run cmp z t' ys)"
  by (induction xs arbitrary: t) (auto split: sum.splits)

lemma inserted_keys_append: "inserted_keys (xs @ ys) = inserted_keys xs @ inserted_keys ys"
  by (induction xs rule: inserted_keys.induct) auto


section \<open>One call of Insert or Get\<close>

lemma Insert_result:
  assumes "Insert cmp t k v = Inr t'"
  shows "0 \<le> hash t k (m t)" and "nat (hash t k (m t)) < length (table t)"
    and "hash t' = hash t" and "m t' = m t" and "length (table t') = length (table t)"
  using assms by (auto simp: Insert_def Let_def split: if_splits sum.splits option.splits)

lemma Insert_other_bucket:
  assumes "Insert cmp t k v = Inr t'" and "i \<noteq> nat (hash t k (m t))"
  shows "table t' ! i = table t ! i"
  using assms by (auto simp: Insert_def Let_def split: if_splits sum.splits option.splits)

lemma Insert_loop:
  assumes "Insert cmp t k v = Inr t'"
  shows "\<exists>r. range_find cmp k (table t ! nat (hash t k (m t))) 0 = Inr r"
  using assms by (auto simp: Insert_def Let_def split: if_splits sum.splits)

lemma Insert_bucket_found:
  assumes "Insert cmp t k v = Inr t'"
    and "range_find cmp k (table t ! nat (hash t k (m t))) 0 = Inr (Some j)"
  shows "table t' ! nat (hash t k (m t)) =
    (table t ! nat (hash t k (m t)))[j := (table t ! nat (hash t k (m t)) ! j)\<lparr>Value := v\<rparr>]"
  using assms by (auto simp: Insert_def Let_def split: if_splits)

lemma Insert_bucket_new:
  assumes "Insert cmp t k v = Inr t'"
    and "range_find cmp k (table t ! nat (hash t k (m t))) 0 = Inr None"
  shows "table t' ! nat (hash t k (m t)) =
    table t ! nat (hash t k (m t)) @ [\<lparr>Key = k, Value = v\<rparr>]"
  using assms by (auto simp: Insert_def Let_def split: if_splits)

lemma Insert_error:
  assumes "Insert cmp t k v = Inl e"
  shows "e = IndexOutOfRange \<and> (hash t k (m t) < 0 \<or> int (length (table t)) \<le> hash t k (m t)) \<or>
    e = UncomparableType \<and> 0 \<le> hash t k (m t) \<and> hash t k (m t) < int (length (table t))"
  using assms
  by (auto simp: Insert_def Let_def split: if_splits sum.splits option.splits
      dest: range_find_error)

lemma Get_error:
  assumes "Get cmp z t k = Inl e"
  shows "e = IndexOutOfRange \<and> (hash t k (m t) < 0 \<or> int (length (table t)) \<le> hash t k (m t)) \<or>
    e = UncomparableType \<and> 0 \<le> hash t k (m t) \<and> hash t k (m t) < int (length (table t))"
  using assms
  by (auto simp: Get_def Let_def split: if_splits sum.splits option.splits
      dest: range_find_error)

lemma Insert_out_of_range:
  assumes "hash t k (m t) < 0 \<or> int (length (table t)) \<le> hash t k (m t)"
  shows "Insert cmp t k v = Inl IndexOutOfRange"
  using assms by (auto simp: Insert_def Let_def)

lemma Get_out_of_range:
  assumes "hash t k (m t) < 0 \<or> int (length (table t)) \<le> hash t k (m t)"
  shows "Get cmp z t k = Inl IndexOutOfRange"
  using assms by (auto simp: Get_def Let_def)

lemma Insert_defined:
  assumes "cmp_total cmp" and "0 \<le> hash t k (m t)" and "hash t k (m t) < int (length (table t))"
  shows "\<exists>t'. Insert cmp t k v = Inr t'"
  using assms range_find_total [OF assms(1), of k "table t ! nat (hash t k (m t))" 0]
  by (auto simp: Insert_def Let_def split: option.splits)

lemma Get_defined:
  assumes "cmp_total cmp" and "0 \<le> hash t k (m t)" and "hash t k (m t) < int (length (table t))"
  shows "\<exists>r. Get cmp z t k = Inr (r, t)"
  using assms range_find_total [OF assms(1), of k "table t ! nat (hash t k (m t))" 0]
  by (auto simp: Get_def Let_def split: option.splits)

lemma Get_state: "Get cmp z t k = Inr (r, t') \<Longrightarrow> t' = t"
  by (auto simp: Get_def Let_def split: if_splits sum.splits option.splits)

lemma Get_bucket:
  assumes "hash t k (m t) = int i" and "i < length (table t)" and "table t ! i = es"
  shows "Get cmp z t k =
    (case range_find cmp k es 0 of
       Inl e \<Rightarrow> Inl e
     | Inr (Some j) \<Rightarrow> Inr ((Value (es ! j), True), t)
     | Inr None \<Rightarrow> Inr ((z, False), t))"
  using assms by (auto simp: Get_def Let_def split: sum.splits option.splits)

lemma Insert_then_Get:
  assumes "Insert cmp t k v = Inr t'" and "cmp k k = Some True"
  shows "Get cmp z t' k = Inr ((v, True), t')"
proof -
  let ?i = "nat (hash t k (m t))"
  let ?es = "table t ! ?i"
  note r = Insert_result [OF assms(1)]
  have g: "Get cmp z t' k =
    (case range_find cmp k (table t' ! ?i) 0 of
       Inl e \<Rightarrow> Inl e
     | Inr (Some j) \<Rightarrow> Inr ((Value (table t' ! ?i ! j), True), t')
     | Inr None \<Rightarrow> Inr ((z, False), t'))"
    using r by (intro Get_bucket [where i = ?i]) simp_all
  from Insert_loop [OF assms(1)] obtain f where f: "range_find cmp k ?es 0 = Inr f" by blast
  show ?thesis
  proof (cases f)
    case None
    have "table t' ! ?i = ?es @ [\<lparr>Key = k, Value = v\<rparr>]"
      using assms(1) f None by (intro Insert_bucket_new) simp_all
    moreover have "range_find cmp k (?es @ [\<lparr>Key = k, Value = v\<rparr>]) 0 = Inr (Some (length ?es))"
      using f None assms(2) by (simp add: range_find_snoc)
    ultimately show ?thesis using g by simp
  next
    case (Some j)
    have b: "table t' ! ?i = ?es[j := (?es ! j)\<lparr>Value := v\<rparr>]"
      using assms(1) f Some by (intro Insert_bucket_found) simp_all
    have "j < length ?es" using f Some by (intro range_find_Some_less [of cmp k]) simp
    with f Some b show ?thesis
      using g range_find_overwrite [of cmp k ?es j v 0] by simp
  qed
qed

lemma Insert_Get_other:
  assumes "Insert cmp t k v = Inr t'" and "k' \<noteq> k" and "cmp_total cmp" and "cmp_sound cmp"
  shows "Get cmp z t' k' =
    (case Get cmp z t k' of Inl e \<Rightarrow> Inl e | Inr (r, s) \<Rightarrow> Inr (r, t'))"
proof -
  let ?i = "nat (hash t k (m t))"
  let ?es = "table t ! ?i"
  note r = Insert_result [OF assms(1)]
  show ?thesis
  proof (cases "0 \<le> hash t k' (m t) \<and> nat (hash t k' (m t)) < length (table t)")
    case False
    then show ?thesis using r by (auto simp: Get_def Let_def)
  next
    case True
    let ?i' = "nat (hash t k' (m t))"
    have g: "Get cmp z t k' =
      (case range_find cmp k' (table t ! ?i') 0 of
         Inl e \<Rightarrow> Inl e
       | Inr (Some j) \<Rightarrow> Inr ((Value (table t ! ?i' ! j), True), t)
       | Inr None \<Rightarrow> Inr ((z, False), t))"
      using True by (intro Get_bucket [where i = ?i']) simp_all
    have g': "Get cmp z t' k' =
      (case range_find cmp k' (table t' ! ?i') 0 of
         Inl e \<Rightarrow> Inl e
       | Inr (Some j) \<Rightarrow> Inr ((Value (table t' ! ?i' ! j), True), t')
       | Inr None \<Rightarrow> Inr ((z, False), t'))"
      using True r by (intro Get_bucket [where i = ?i']) simp_all
    from range_find_total [OF assms(3), of k' "table t ! ?i'" 0]
    obtain f' where f': "range_find cmp k' (table t ! ?i') 0 = Inr f'" by blast
    show ?thesis
    proof (cases "?i' = ?i")
      case False
      then have "table t' ! ?i' = table t ! ?i'"
        using assms(1) by (simp add: Insert_other_bucket)
      then show ?thesis using g g' by (simp split: sum.splits option.splits)
    next
      case same: True
      from Insert_loop [OF assms(1)] obtain f where f: "range_find cmp k ?es 0 = Inr f" by blast
      have nk: "cmp k' k = Some False"
      proof -
        have "cmp k' k \<noteq> None" using assms(3) by (rule cmp_totalD)
        moreover have "cmp k' k \<noteq> Some True"
          using assms(2) cmp_soundD [OF assms(4), of k' k] by blast
        ultimately show ?thesis by (cases "cmp k' k") auto
      qed
      show ?thesis
      proof (cases f)
        case None
        have b: "table t' ! ?i = ?es @ [\<lparr>Key = k, Value = v\<rparr>]"
          using assms(1) f None by (intro Insert_bucket_new) simp_all
        show ?thesis
        proof (cases f')
          case n': None
          then have "range_find cmp k' (table t' ! ?i) 0 = Inr None"
            using f' same b nk by (simp add: range_find_snoc)
          then show ?thesis using g g' f' n' same by simp
        next
          case (Some j')
          then have "range_find cmp k' (table t' ! ?i) 0 = Inr (Some j')"
            using f' same b by (simp add: range_find_snoc_found)
          moreover have "j' < length ?es"
            using f' Some same by (intro range_find_Some_less [of cmp k']) simp
          ultimately show ?thesis using g g' f' same Some b by (simp add: nth_append)
        qed
      next
        case (Some j)
        have b: "table t' ! ?i = ?es[j := (?es ! j)\<lparr>Value := v\<rparr>]"
          using assms(1) f Some by (intro Insert_bucket_found) simp_all
        have e: "range_find cmp k' (table t' ! ?i) 0 = range_find cmp k' ?es 0"
          using b by (simp add: range_find_overwrite)
        show ?thesis
        proof (cases f')
          case None
          then show ?thesis using g g' f' e same by simp
        next
          case j': (Some j')
          have "cmp k' (Key (?es ! j')) = Some True"
            using f' j' same by (intro range_find_Some_key) simp
          then have "k' = Key (?es ! j')" by (rule cmp_soundD [OF assms(4)])
          moreover have "cmp k (Key (?es ! j)) = Some True"
            using f Some by (intro range_find_Some_key) simp
          then have "k = Key (?es ! j)" by (rule cmp_soundD [OF assms(4)])
          ultimately have "j' \<noteq> j" using assms(2) by auto
          then show ?thesis using g g' f' e same j' b by simp
        qed
      qed
    qed
  qed
qed


lemma Insert_makes_present:
  assumes "Insert cmp t k v = Inr t'" and "cmp k k = Some True"
  shows "\<exists>j. range_find cmp k (table t' ! nat (hash t k (m t))) 0 = Inr (Some j)"
proof -
  let ?es = "table t ! nat (hash t k (m t))"
  from Insert_loop [OF assms(1)] obtain f where f: "range_find cmp k ?es 0 = Inr f" by blast
  show ?thesis
  proof (cases f)
    case None
    with f have n: "range_find cmp k ?es 0 = Inr None" by simp
    from Insert_bucket_new [OF assms(1) n] range_find_snoc [OF n, of "\<lparr>Key = k, Value = v\<rparr>"]
    show ?thesis using assms(2) by simp
  next
    case (Some j)
    with f have j: "range_find cmp k ?es 0 = Inr (Some j)" by simp
    from Insert_bucket_found [OF assms(1) j] j show ?thesis
      by (simp add: range_find_overwrite)
  qed
qed

lemma Insert_bucket_length:
  assumes "Insert cmp t k v = Inr t'" and "i < length (table t)"
  shows "length (table t' ! i) =
    (if int i = hash t k (m t) \<and> (\<forall>e \<in> set (table t ! i). cmp k (Key e) = Some False)
     then Suc (length (table t ! i)) else length (table t ! i))"
proof (cases "i = nat (hash t k (m t))")
  case False
  then have "int i \<noteq> hash t k (m t)" by auto
  with Insert_other_bucket [OF assms(1) False] show ?thesis by simp
next
  case True
  then have h: "int i = hash t k (m t)" using Insert_result(1) [OF assms(1)] by simp
  let ?es = "table t ! nat (hash t k (m t))"
  from Insert_loop [OF assms(1)] obtain f where f: "range_find cmp k ?es 0 = Inr f" by blast
  show ?thesis
  proof (cases f)
    case None
    with f have n: "range_find cmp k ?es 0 = Inr None" by simp
    from Insert_bucket_new [OF assms(1) n] n True h show ?thesis
      by (simp add: range_find_None)
  next
    case (Some j)
    with f have j: "range_find cmp k ?es 0 = Inr (Some j)" by simp
    then have "\<not> (\<forall>e \<in> set (table t ! i). cmp k (Key e) = Some False)"
      using True range_find_None [of cmp k "table t ! i" 0] by simp
    with Insert_bucket_found [OF assms(1) j] True show ?thesis by simp
  qed
qed

lemma Insert_bucket_prefix:
  assumes "Insert cmp t k v = Inr t'"
  shows "prefix (map Key (table t ! i)) (map Key (table t' ! i))"
proof (cases "i = nat (hash t k (m t))")
  case False
  with Insert_other_bucket [OF assms False] show ?thesis by simp
next
  case True
  let ?es = "table t ! nat (hash t k (m t))"
  from Insert_loop [OF assms(1)] obtain f where f: "range_find cmp k ?es 0 = Inr f" by blast
  show ?thesis
  proof (cases f)
    case None
    with f have n: "range_find cmp k ?es 0 = Inr None" by simp
    from Insert_bucket_new [OF assms n] True show ?thesis by simp
  next
    case (Some j)
    with f have j: "range_find cmp k ?es 0 = Inr (Some j)" by simp
    from Insert_bucket_found [OF assms j] True show ?thesis
      by (simp only: map_Key_overwrite prefix_order.order_refl)
  qed
qed

lemma Insert_bucket_keys:
  assumes "Insert cmp t k v = Inr t'"
  shows "set (map Key (table t' ! i)) \<subseteq> insert k (set (map Key (table t ! i)))"
proof (cases "i = nat (hash t k (m t))")
  case False
  with Insert_other_bucket [OF assms False] show ?thesis by auto
next
  case True
  let ?es = "table t ! nat (hash t k (m t))"
  from Insert_loop [OF assms(1)] obtain f where f: "range_find cmp k ?es 0 = Inr f" by blast
  show ?thesis
  proof (cases f)
    case None
    with f have n: "range_find cmp k ?es 0 = Inr None" by simp
    from Insert_bucket_new [OF assms n] True show ?thesis by auto
  next
    case (Some j)
    with f have j: "range_find cmp k ?es 0 = Inr (Some j)" by simp
    have "map Key (table t' ! i) = map Key (table t ! i)"
      using Insert_bucket_found [OF assms j] True by (simp only: map_Key_overwrite)
    then show ?thesis by (simp only: subset_insertI)
  qed
qed

lemma Insert_bucket_inv:
  assumes "Insert cmp t k v = Inr t'" and "cmp k k = Some True" and "bucket_inv t"
  shows "bucket_inv t'"
  unfolding bucket_inv_def
proof (intro allI impI)
  fix i assume "i < length (table t')"
  then have i: "i < length (table t)" using Insert_result [OF assms(1)] by simp
  note r = Insert_result [OF assms(1)]
  from assms(3) i have d: "distinct (map Key (table t ! i))"
    and h: "\<forall>e \<in> set (table t ! i). hash t (Key e) (m t) = int i"
    by (simp_all add: bucket_inv_def)
  show "distinct (map Key (table t' ! i)) \<and>
    (\<forall>e \<in> set (table t' ! i). hash t' (Key e) (m t') = int i)"
  proof (cases "i = nat (hash t k (m t))")
    case False
    with Insert_other_bucket [OF assms(1) False] d h r show ?thesis by simp
  next
    case True
    let ?es = "table t ! nat (hash t k (m t))"
    from Insert_loop [OF assms(1)] obtain f where f: "range_find cmp k ?es 0 = Inr f" by blast
    show ?thesis
    proof (cases f)
      case None
      with f have n: "range_find cmp k ?es 0 = Inr None" by simp
      then have "\<forall>e \<in> set ?es. cmp k (Key e) = Some False" by (simp add: range_find_None)
      then have nk: "k \<notin> Key ` set (table t ! i)" using assms(2) True by auto
      have hk: "hash t k (m t) = int i" using True r(1) by simp
      have b: "table t' ! i = table t ! i @ [\<lparr>Key = k, Value = v\<rparr>]"
        using Insert_bucket_new [OF assms(1) n] True by simp
      have "distinct (map Key (table t' ! i))" using d nk unfolding b by simp
      moreover have "\<forall>e \<in> set (table t' ! i). hash t (Key e) (m t) = int i"
        using h hk unfolding b by simp
      ultimately show ?thesis using r by simp
    next
      case (Some j)
      with f have j: "range_find cmp k ?es 0 = Inr (Some j)" by simp
      have k: "map Key (table t' ! i) = map Key (table t ! i)"
        using Insert_bucket_found [OF assms(1) j] True by (simp only: map_Key_overwrite)
      have ks: "Key ` set (table t' ! i) = Key ` set (table t ! i)"
        using arg_cong [OF k, of set] by simp
      have "\<forall>x \<in> Key ` set (table t ! i). hash t x (m t) = int i" using h by blast
      then have "\<forall>x \<in> Key ` set (table t' ! i). hash t x (m t) = int i"
        by (simp only: ks)
      then have "\<forall>e \<in> set (table t' ! i). hash t (Key e) (m t) = int i" by blast
      with d k r show ?thesis by simp
    qed
  qed
qed

section \<open>Tables reached from New\<close>

lemma apply_op_frame:
  assumes "apply_op cmp z t x = Inr t'"
  shows "hash t' = hash t \<and> m t' = m t \<and> length (table t') = length (table t)"
proof (cases x)
  case (OpInsert k v)
  with assms show ?thesis by (simp add: Insert_result)
next
  case (OpGet k)
  with assms show ?thesis by (auto split: sum.splits dest: Get_state)
qed

lemma run_frame:
  "run cmp z t xs = Inr t' \<Longrightarrow>
     hash t' = hash t \<and> m t' = m t \<and> length (table t') = length (table t)"
proof (induction xs arbitrary: t)
  case Nil
  then show ?case by simp
next
  case (Cons x xs)
  then obtain s where s: "apply_op cmp z t x = Inr s" and r: "run cmp z s xs = Inr t'"
    by (auto split: sum.splits)
  from apply_op_frame [OF s] Cons.IH [OF r] show ?case by simp
qed

lemma apply_op_in_bounds:
  assumes "in_range (hash t) (m t)" and "m_buckets t"
  shows "apply_op cmp z t x \<noteq> Inl IndexOutOfRange"
proof -
  have b: "0 \<le> hash t k (m t) \<and> hash t k (m t) < int (length (table t))" for k
    using assms by (simp add: in_range_def m_buckets_def)
  show ?thesis
  proof (cases x)
    case (OpInsert k v)
    then show ?thesis using Insert_error [of cmp t k v IndexOutOfRange] b [of k] by auto
  next
    case (OpGet k)
    then show ?thesis using Get_error [of cmp z t k IndexOutOfRange] b [of k]
      by (auto split: sum.splits)
  qed
qed

lemma apply_op_defined:
  assumes "cmp_total cmp" and "in_range (hash t) (m t)" and "m_buckets t"
  shows "\<exists>t'. apply_op cmp z t x = Inr t'"
proof -
  have b: "0 \<le> hash t k (m t)" "hash t k (m t) < int (length (table t))" for k
    using assms(2,3) by (simp_all add: in_range_def m_buckets_def)
  show ?thesis
  proof (cases x)
    case (OpInsert k v)
    then show ?thesis using Insert_defined [OF assms(1), of t k v] b [of k] by simp
  next
    case (OpGet k)
    then show ?thesis using Get_defined [OF assms(1), of t k z] b [of k] by auto
  qed
qed

lemma from_New_snoc:
  "from_New cmp z n h (xs @ [x]) =
     (case from_New cmp z n h xs of Inl e \<Rightarrow> Inl e | Inr s \<Rightarrow> apply_op cmp z s x)"
  by (auto simp: from_New_def run_append split: sum.splits)

lemma from_New_frame:
  assumes "from_New cmp z n h xs = Inr t"
  shows "0 \<le> n" and "n \<le> makeslice_max" and "hash t = h" and "m t = n"
    and "length (table t) = nat n"
proof -
  from assms obtain t0 where n: "New n h = Inr t0" and r: "run cmp z t0 xs = Inr t"
    by (auto simp: from_New_def split: sum.splits)
  from n have "0 \<le> n \<and> n \<le> makeslice_max \<and> hash t0 = h \<and> m t0 = n \<and>
      length (table t0) = nat n"
    by (auto simp: New_def split: if_splits)
  with run_frame [OF r]
  show "0 \<le> n" and "n \<le> makeslice_max" and "hash t = h" and "m t = n"
    and "length (table t) = nat n"
    by simp_all
qed

lemma from_New_in_bounds:
  assumes "in_range h n"
  shows "from_New cmp z n h xs \<noteq> Inl IndexOutOfRange"
proof (induction xs rule: rev_induct)
  case Nil
  then show ?case by (simp add: from_New_def New_def)
next
  case (snoc x xs)
  show ?case
  proof (cases "from_New cmp z n h xs")
    case (Inl e)
    with snoc show ?thesis by (simp add: from_New_snoc)
  next
    case (Inr s)
    note f = from_New_frame [OF Inr]
    have "in_range (hash s) (m s)" and "m_buckets s"
      using assms f by (simp_all add: m_buckets_def)
    from apply_op_in_bounds [OF this, of cmp z x] Inr show ?thesis
      by (simp add: from_New_snoc)
  qed
qed

lemma from_New_defined:
  assumes "cmp_total cmp" and "in_range h n" and "n \<le> makeslice_max"
  shows "\<exists>t. from_New cmp z n h xs = Inr t"
proof (induction xs rule: rev_induct)
  case Nil
  from assms(2) have "0 < n" by (auto simp: in_range_def intro: le_less_trans)
  then show ?case using assms(3) by (simp add: from_New_def New_def)
next
  case (snoc x xs)
  then obtain s where s: "from_New cmp z n h xs = Inr s" by blast
  note f = from_New_frame [OF s]
  have "in_range (hash s) (m s)" and "m_buckets s"
    using assms f by (simp_all add: m_buckets_def)
  from apply_op_defined [OF assms(1) this, of z x] s show ?case
    by (simp add: from_New_snoc)
qed


lemma run_bucket_prefix:
  "run cmp z t xs = Inr t' \<Longrightarrow> prefix (map Key (table t ! i)) (map Key (table t' ! i))"
proof (induction xs arbitrary: t)
  case Nil
  then show ?case by simp
next
  case (Cons x xs)
  from Cons.prems obtain s where s: "apply_op cmp z t x = Inr s"
    and r: "run cmp z s xs = Inr t'"
    by (auto split: sum.splits)
  have "prefix (map Key (table t ! i)) (map Key (table s ! i))"
  proof (cases x)
    case (OpInsert k v)
    with s show ?thesis by (simp add: Insert_bucket_prefix)
  next
    case (OpGet k)
    with s have "s = t" by (auto split: sum.splits dest: Get_state)
    then show ?thesis by simp
  qed
  with Cons.IH [OF r] show ?case by (rule prefix_order.trans [rotated])
qed

lemma run_bucket_keys:
  "run cmp z t xs = Inr t' \<Longrightarrow>
     set (map Key (table t' ! i)) \<subseteq> set (map Key (table t ! i)) \<union> set (inserted_keys xs)"
proof (induction xs arbitrary: t)
  case Nil
  then show ?case by simp
next
  case (Cons x xs)
  from Cons.prems obtain s where s: "apply_op cmp z t x = Inr s"
    and r: "run cmp z s xs = Inr t'"
    by (auto split: sum.splits)
  note ih = Cons.IH [OF r]
  show ?case
  proof (cases x)
    case (OpInsert k v)
    with s have "Insert cmp t k v = Inr s" by simp
    from Insert_bucket_keys [OF this, of i] ih show ?thesis
      unfolding OpInsert by (simp only: inserted_keys.simps list.set) blast
  next
    case (OpGet k)
    with s have "s = t" by (auto split: sum.splits dest: Get_state)
    with ih OpGet show ?thesis by simp
  qed
qed

lemma run_bucket_inv:
  assumes "cmp_refl cmp"
  shows "run cmp z t xs = Inr t' \<Longrightarrow> bucket_inv t \<Longrightarrow> bucket_inv t'"
proof (induction xs arbitrary: t)
  case Nil
  then show ?case by simp
next
  case (Cons x xs)
  from Cons.prems(1) obtain s where s: "apply_op cmp z t x = Inr s"
    and r: "run cmp z s xs = Inr t'"
    by (auto split: sum.splits)
  have "bucket_inv s"
  proof (cases x)
    case (OpInsert k v)
    with s have "Insert cmp t k v = Inr s" by simp
    then show ?thesis using cmp_reflD [OF assms] Cons.prems(2) by (rule Insert_bucket_inv)
  next
    case (OpGet k)
    with s have "s = t" by (auto split: sum.splits dest: Get_state)
    with Cons.prems(2) show ?thesis by simp
  qed
  with r show ?case by (rule Cons.IH)
qed

lemma from_New_bucket_inv:
  assumes "cmp_refl cmp" and "from_New cmp z n h xs = Inr t"
  shows "bucket_inv t"
proof -
  from assms(2) obtain t0 where n: "New n h = Inr t0" and r: "run cmp z t0 xs = Inr t"
    by (auto simp: from_New_def split: sum.splits)
  from n have "bucket_inv t0"
    by (auto simp: New_def bucket_inv_def split: if_splits)
  with assms(1) r show ?thesis by (rule run_bucket_inv)
qed

lemma from_New_keys:
  assumes "from_New cmp z n h xs = Inr t" and "i < nat n"
  shows "set (map Key (table t ! i)) \<subseteq> set (inserted_keys xs)"
proof -
  from assms(1) obtain t0 where n: "New n h = Inr t0" and r: "run cmp z t0 xs = Inr t"
    by (auto simp: from_New_def split: sum.splits)
  from n assms(2) have "table t0 ! i = []"
    by (auto simp: New_def split: if_splits)
  with run_bucket_keys [OF r, of i] show ?thesis by simp
qed

lemma Get_absent:
  assumes "cmp_total cmp" and "cmp_sound cmp"
    and "0 \<le> hash t k (m t)" and "hash t k (m t) < int (length (table t))"
    and "k \<notin> Key ` set (table t ! nat (hash t k (m t)))"
  shows "Get cmp z t k = Inr ((z, False), t)"
proof -
  let ?es = "table t ! nat (hash t k (m t))"
  have "cmp k (Key e) = Some False" if "e \<in> set ?es" for e
  proof -
    have "cmp k (Key e) \<noteq> None" using assms(1) by (rule cmp_totalD)
    moreover have "cmp k (Key e) \<noteq> Some True"
      using cmp_soundD [OF assms(2), of k "Key e"] that assms(5) by blast
    ultimately show ?thesis by (cases "cmp k (Key e)") auto
  qed
  then have "range_find cmp k ?es 0 = Inr None" by (simp add: range_find_None)
  then show ?thesis using assms(3,4) by (simp add: Get_def Let_def)
qed

lemma Get_never_inserted:
  assumes "cmp_total cmp" and "cmp_sound cmp" and "in_range h n"
    and "from_New cmp z n h xs = Inr t" and "k \<notin> set (inserted_keys xs)"
  shows "Get cmp z t k = Inr ((z, False), t)"
proof -
  note f = from_New_frame [OF assms(4)]
  have b: "0 \<le> h k n" "h k n < n" using assms(3) by (simp_all add: in_range_def)
  then have i: "nat (h k n) < nat n" by simp
  from from_New_keys [OF assms(4) i] assms(5)
  have "k \<notin> Key ` set (table t ! nat (h k n))" by auto
  then show ?thesis using Get_absent [OF assms(1,2), of t k z] f b by simp
qed

lemma run_Get_other:
  assumes "cmp_total cmp" and "cmp_sound cmp"
  shows "run cmp z t xs = Inr t' \<Longrightarrow> k \<notin> set (inserted_keys xs) \<Longrightarrow>
    Get cmp z t' k = (case Get cmp z t k of Inl e \<Rightarrow> Inl e | Inr (r, s) \<Rightarrow> Inr (r, t'))"
proof (induction xs arbitrary: t)
  case Nil
  then show ?case by (auto split: sum.splits dest: Get_state)
next
  case (Cons x xs)
  from Cons.prems(1) obtain s where s: "apply_op cmp z t x = Inr s"
    and r: "run cmp z s xs = Inr t'"
    by (auto split: sum.splits)
  have k: "k \<notin> set (inserted_keys xs)" using Cons.prems(2) by (cases x) auto
  note ih = Cons.IH [OF r k]
  show ?case
  proof (cases x)
    case (OpGet k')
    with s have "s = t" by (auto split: sum.splits dest: Get_state)
    with ih show ?thesis by simp
  next
    case (OpInsert k' v)
    with s have ins: "Insert cmp t k' v = Inr s" by simp
    have "k \<noteq> k'" using Cons.prems(2) OpInsert by auto
    from Insert_Get_other [OF ins this assms, of z] ih show ?thesis
      by (auto split: sum.splits)
  qed
qed

lemma bucket_keys_from_New:
  assumes "from_New go_eq z n h xs = Inr t" and "i < nat n"
  shows "map Key (table t ! i) =
    first_occurrences (filter (\<lambda>k. h k n = int i) (inserted_keys xs))"
  using assms
proof (induction xs arbitrary: t rule: rev_induct)
  case Nil
  then show ?case by (auto simp: from_New_def New_def split: if_splits)
next
  case (snoc x xs)
  from snoc.prems(1) obtain s where s: "from_New go_eq z n h xs = Inr s"
    and a: "apply_op go_eq z s x = Inr t"
    by (auto simp: from_New_snoc split: sum.splits)
  note f = from_New_frame [OF s]
  note ih = snoc.IH [OF s snoc.prems(2)]
  show ?case
  proof (cases x)
    case (OpGet k)
    with a have "t = s" by (auto split: sum.splits dest: Get_state)
    with ih OpGet show ?thesis by (simp add: inserted_keys_append)
  next
    case (OpInsert k v)
    with a have ins: "Insert go_eq s k v = Inr t" by simp
    note r = Insert_result [OF ins]
    have keys: "inserted_keys (xs @ [x]) = inserted_keys xs @ [k]"
      using OpInsert by (simp add: inserted_keys_append)
    show ?thesis
    proof (cases "h k n = int i")
      case False
      then have "i \<noteq> nat (hash s k (m s))" using f r by auto
      with ins have "table t ! i = table s ! i" by (simp add: Insert_other_bucket)
      with ih False keys show ?thesis by simp
    next
      case True
      then have i: "nat (hash s k (m s)) = i" using f by simp
      let ?F = "filter (\<lambda>k. h k n = int i) (inserted_keys xs)"
      have mem: "k \<in> set ?F \<longleftrightarrow> range_find go_eq k (table s ! i) 0 \<noteq> Inr None"
      proof -
        have "set ?F = set (map Key (table s ! i))"
          using ih by (simp only: first_occurrences_set)
        then show ?thesis by (simp add: range_find_go_eq_None)
      qed
      from Insert_loop [OF ins] i obtain g where g: "range_find go_eq k (table s ! i) 0 = Inr g"
        by auto
      show ?thesis
      proof (cases g)
        case None
        with g i have n: "range_find go_eq k (table s ! nat (hash s k (m s))) 0 = Inr None"
          by simp
        have "table t ! i = table s ! i @ [\<lparr>Key = k, Value = v\<rparr>]"
          using Insert_bucket_new [OF ins n] i by simp
        with ih None g mem True keys show ?thesis
          by (simp add: first_occurrences_snoc)
      next
        case (Some j)
        with g i have n: "range_find go_eq k (table s ! nat (hash s k (m s))) 0 = Inr (Some j)"
          by simp
        have "table t ! i = (table s ! i)[j := (table s ! i ! j)\<lparr>Value := v\<rparr>]"
          using Insert_bucket_found [OF ins n] i by simp
        then have "map Key (table t ! i) = map Key (table s ! i)"
          by (simp only: map_Key_overwrite)
        with ih Some g mem True keys show ?thesis
          by (simp add: first_occurrences_snoc)
      qed
    qed
  qed
qed

lemma bucket_inv_hash:
  assumes "bucket_inv t" and "entry_at t i j k"
  shows "hash t k (m t) = int i"
proof -
  from assms(2) have "i < length (table t)" and "table t ! i ! j \<in> set (table t ! i)"
    and "Key (table t ! i ! j) = k"
    by (simp_all add: entry_at_def)
  with assms(1) show ?thesis unfolding bucket_inv_def by blast
qed

lemma bucket_inv_unique:
  assumes "bucket_inv t" and "entry_at t i j k" and "entry_at t i' j' k"
  shows "i' = i \<and> j' = j"
proof -
  have "int i' = int i"
    using bucket_inv_hash [OF assms(1,2)] bucket_inv_hash [OF assms(1,3)] by simp
  then have i: "i' = i" by simp
  from assms(1,2) have d: "distinct (map Key (table t ! i))"
    by (simp add: bucket_inv_def entry_at_def)
  have "map Key (table t ! i) ! j = map Key (table t ! i) ! j'"
    and "j < length (map Key (table t ! i))" and "j' < length (map Key (table t ! i))"
    using assms(2,3) i by (simp_all add: entry_at_def)
  with d have "j = j'" by (simp only: nth_eq_iff_index_eq)
  with i show ?thesis by simp
qed

section \<open>Evaluating the concrete tables\<close>

lemma ex_hash_in_range: "0 < n \<Longrightarrow> in_range ex_hash n"
  by (simp add: in_range_def ex_hash_def)

lemma zero_hash_in_range: "0 < n \<Longrightarrow> in_range zero_hash n"
  by (simp add: in_range_def zero_hash_def)

lemma two_buckets: "replicate 2 x = [x, x]"
  by (simp add: numeral_2_eq_2)

lemma makeslice_max_value: "makeslice_max = 11728124029610"
  by (simp add: makeslice_max_def)

lemmas ex_eval = from_New_def New_def Insert_def Get_def ex_hash_def ex_table_def
  two_buckets m_buckets_def entry_at_def id_hash_def bad_table_def go_eq_def
  makeslice_max_value zero_hash_def float_eq_def float_t0_def float_t1_def float_t2_def
  any_t1_def sign_hash_def zeros_table_def float_z1_def

section \<open>The claims\<close>

text \<open>
  C1, as amended. For a key type whose \<^verbatim>\<open>==\<close> never panics and holds between every key
  and itself, with a hash function that is in range for every key, on every table that
  has its \<open>m\<close> buckets: \<^verbatim>\<open>Insert(k, v)\<close> returns and \<^verbatim>\<open>Get(k)\<close> on the resulting table
  returns \<open>(v, true)\<close>. Where \<^verbatim>\<open>==\<close> moreover holds only between identical keys, every
  other key \<open>k'\<close> that hashes to the same bucket as \<open>k\<close> and was found with value \<open>v'\<close>
  before the insertion is still found with \<open>v'\<close> after it: the lookup tells the two
  keys apart by equality inside the shared bucket.
\<close>

theorem Insert_Get_same_key:
  assumes "cmp_total cmp" and "cmp_refl cmp"
    and "in_range (hash t) (m t)" and "m_buckets t"
  shows "\<exists>t'. Insert cmp t k v = Inr t' \<and> Get cmp z t' k = Inr ((v, True), t') \<and>
    (cmp_sound cmp \<longrightarrow>
       (\<forall>k' v'. k' \<noteq> k \<and> hash t k' (m t) = hash t k (m t) \<and>
           Get cmp z t k' = Inr ((v', True), t) \<longrightarrow>
         Get cmp z t' k' = Inr ((v', True), t')))"
proof -
  have "0 \<le> hash t k (m t)" and "hash t k (m t) < int (length (table t))"
    using assms(3,4) by (simp_all add: in_range_def m_buckets_def)
  then obtain t' where ins: "Insert cmp t k v = Inr t'"
    using Insert_defined [OF assms(1), of t k v] by blast
  have "Get cmp z t' k = Inr ((v, True), t')"
    using ins cmp_reflD [OF assms(2)] by (rule Insert_then_Get)
  moreover have "Get cmp z t' k' = Inr ((v', True), t')"
    if "cmp_sound cmp" and "k' \<noteq> k" and "Get cmp z t k' = Inr ((v', True), t)" for k' v'
    using Insert_Get_other [OF ins that(2) assms(1) that(1), of z] that(3) by simp
  ultimately show ?thesis using ins by blast
qed

text \<open>
  The table \<open>ex_table\<close> holds the key \<open>0\<close>; the key \<open>2\<close> hashes to the same bucket.
  After \<^verbatim>\<open>Insert(2, 7)\<close> both keys are found with their own values.
\<close>

theorem Insert_Get_same_key_witness:
  "cmp_total (go_eq :: nat comparison) \<and> cmp_refl (go_eq :: nat comparison) \<and>
   in_range (hash ex_table) (m ex_table) \<and> m_buckets ex_table \<and>
   cmp_sound (go_eq :: nat comparison) \<and>
   (\<exists>t'. Insert go_eq ex_table 2 7 = Inr t' \<and> Get go_eq 0 t' 2 = Inr ((7, True), t') \<and>
      table t' = [[\<lparr>Key = 0, Value = 5\<rparr>, \<lparr>Key = 2, Value = 7\<rparr>], []] \<and>
      Get go_eq 0 t' 0 = Inr ((5, True), t'))"
proof -
  have a: "in_range (hash ex_table) (m ex_table)" and b: "m_buckets ex_table"
    by (simp_all add: ex_table_def ex_hash_in_range m_buckets_def)
  have s: "cmp_sound (go_eq :: nat comparison)" by (rule go_eq_props)
  from Insert_Get_same_key [OF go_eq_props(1,2) a b, of 2 7 0] s
  obtain t' where ins: "Insert go_eq ex_table 2 7 = Inr t'"
    and g: "Get go_eq 0 t' 2 = Inr ((7, True), t')"
    and o: "\<And>k' v'. k' \<noteq> 2 \<Longrightarrow> hash ex_table k' (m ex_table) = hash ex_table 2 (m ex_table) \<Longrightarrow>
        Get go_eq 0 ex_table k' = Inr ((v', True), ex_table) \<Longrightarrow>
        Get go_eq 0 t' k' = Inr ((v', True), t')"
    by blast
  have "Get go_eq 0 t' 0 = Inr ((5, True), t')"
    by (rule o) (simp_all add: ex_table_def ex_hash_def Get_def go_eq_def)
  moreover have "table t' = [[\<lparr>Key = 0, Value = 5\<rparr>, \<lparr>Key = 2, Value = 7\<rparr>], []]"
    using ins by (auto simp: ex_table_def ex_hash_def Insert_def go_eq_def)
  ultimately show ?thesis using a b ins g by (simp add: go_eq_props)
qed

text \<open>
  Without the restriction on the key type the statement fails. With \<^verbatim>\<open>float64\<close> keys,
  \<^verbatim>\<open>Insert(NaN, 1)\<close> on the empty table and then \<^verbatim>\<open>Get(NaN)\<close> returns \<open>(0, false)\<close>: the
  loop compares NaN with the stored NaN and finds them unequal. With keys of an interface
  type, \<^verbatim>\<open>Insert\<close> of the slice \<^verbatim>\<open>[]int{2}\<close> into the bucket that holds \<^verbatim>\<open>[]int{1}\<close> panics
  in the comparison and returns nothing. With \<^verbatim>\<open>float64\<close> keys again, in the table that
  holds \<^verbatim>\<open>+0.0\<close> with the value \<open>1\<close>, \<^verbatim>\<open>Insert(-0.0, 2)\<close> overwrites that entry, the two
  zeros being equal, and \<^verbatim>\<open>Get(+0.0)\<close> returns \<open>(2, true)\<close> where it returned \<open>(1, true)\<close>
  before.
\<close>

theorem Insert_Get_same_key_counterexample:
  "in_range (hash float_t0) (m float_t0) \<and> m_buckets float_t0 \<and>
   Insert float_eq float_t0 NaN 1 = Inr float_t1 \<and>
   Get float_eq 0 float_t1 NaN = Inr ((0, False), float_t1) \<and>
   in_range (hash any_t1) (m any_t1) \<and> m_buckets any_t1 \<and>
   Insert any_eq any_t1 (SliceKey [2]) 5 = Inl UncomparableType \<and>
   in_range (hash float_z1) (m float_z1) \<and> m_buckets float_z1 \<and> PosZero \<noteq> NegZero \<and>
   hash float_z1 PosZero (m float_z1) = hash float_z1 NegZero (m float_z1) \<and>
   Get float_eq 0 float_z1 PosZero = Inr ((1, True), float_z1) \<and>
   Insert float_eq float_z1 NegZero 2 =
     Inr (float_z1\<lparr>table := [[\<lparr>Key = PosZero, Value = 2\<rparr>]]\<rparr>) \<and>
   Get float_eq 0 (float_z1\<lparr>table := [[\<lparr>Key = PosZero, Value = 2\<rparr>]]\<rparr>) PosZero =
     Inr ((2, True), float_z1\<lparr>table := [[\<lparr>Key = PosZero, Value = 2\<rparr>]]\<rparr>)"
  by (simp add: ex_eval zero_hash_in_range in_range_def)

text \<open>
  C2, as amended. For a key type whose \<^verbatim>\<open>==\<close> never panics and holds only between
  identical keys, with a hash function that is in range for every key and a bucket
  count that \<^verbatim>\<open>make\<close> accepts: a run of operations on a freshly constructed table
  returns, and on the table it reaches \<^verbatim>\<open>Get(k)\<close> for a key \<open>k\<close> that no call of the run
  inserted returns the zero value of the value type and the flag \<open>false\<close>; it raises no
  error.
\<close>

theorem Get_absent_key:
  assumes "cmp_total cmp" and "cmp_sound cmp" and "in_range h n" and "n \<le> makeslice_max"
    and "k \<notin> set (inserted_keys xs)"
  shows "\<exists>t. from_New cmp z n h xs = Inr t \<and> Get cmp z t k = Inr ((z, False), t)"
proof -
  from from_New_defined [OF assms(1,3,4), of z xs]
  obtain t where t: "from_New cmp z n h xs = Inr t" by blast
  from Get_never_inserted [OF assms(1,2,3) t assms(5)] t show ?thesis by blast
qed

theorem Get_absent_key_witness:
  "cmp_total (go_eq :: nat comparison) \<and> cmp_sound (go_eq :: nat comparison) \<and>
   in_range ex_hash 2 \<and> 2 \<le> makeslice_max \<and>
   (3::nat) \<notin> set (inserted_keys [OpInsert 0 (5::int), OpInsert 1 6, OpGet 3]) \<and>
   (\<exists>t. from_New go_eq (0::int) 2 ex_hash [OpInsert 0 5, OpInsert 1 6, OpGet 3] = Inr t \<and>
      table t = [[\<lparr>Key = 0, Value = 5\<rparr>], [\<lparr>Key = 1, Value = 6\<rparr>]] \<and>
      Get go_eq 0 t 3 = Inr ((0, False), t))"
proof -
  let ?xs = "[OpInsert 0 (5::int), OpInsert 1 6, OpGet (3::nat)]"
  have a: "in_range ex_hash 2" by (simp add: ex_hash_in_range)
  have l: "2 \<le> makeslice_max" by (simp add: makeslice_max_value)
  have b: "(3::nat) \<notin> set (inserted_keys ?xs)" by simp
  from Get_absent_key [OF go_eq_props(1,3) a l b, of 0]
  obtain t where t: "from_New go_eq 0 2 ex_hash ?xs = Inr t"
    and g: "Get go_eq 0 t 3 = Inr ((0, False), t)"
    by blast
  have "table t = [[\<lparr>Key = 0, Value = 5\<rparr>], [\<lparr>Key = 1, Value = 6\<rparr>]]"
    using t by (auto simp: ex_eval)
  with a l b t g show ?thesis by (simp add: go_eq_props)
qed

text \<open>
  Without the restriction on the key type the statement fails. With keys of an interface
  type, after \<^verbatim>\<open>Insert([]int{1}, 1)\<close> the call \<^verbatim>\<open>Get([]int{2})\<close> for the never inserted
  key \<^verbatim>\<open>[]int{2}\<close> panics in the comparison. With \<^verbatim>\<open>float64\<close> keys, after
  \<^verbatim>\<open>Insert(+0.0, 1)\<close> the call \<^verbatim>\<open>Get(-0.0)\<close> for the never inserted key \<^verbatim>\<open>-0.0\<close> returns
  \<open>(1, true)\<close>, the two zeros being equal.
\<close>

theorem Get_absent_key_counterexample:
  "in_range (zero_hash :: any_key \<Rightarrow> int \<Rightarrow> int) 1 \<and> 1 \<le> makeslice_max \<and>
   SliceKey [2] \<notin> set (inserted_keys [OpInsert (SliceKey [1]) (1::int)]) \<and>
   from_New any_eq 0 1 zero_hash [OpInsert (SliceKey [1]) 1] = Inr any_t1 \<and>
   Get any_eq 0 any_t1 (SliceKey [2]) = Inl UncomparableType \<and>
   in_range (zero_hash :: float_key \<Rightarrow> int \<Rightarrow> int) 1 \<and>
   NegZero \<notin> set (inserted_keys [OpInsert PosZero (1::int)]) \<and>
   from_New float_eq 0 1 zero_hash [OpInsert PosZero 1] =
     Inr (float_t0\<lparr>table := [[\<lparr>Key = PosZero, Value = 1\<rparr>]]\<rparr>) \<and>
   Get float_eq 0 (float_t0\<lparr>table := [[\<lparr>Key = PosZero, Value = 1\<rparr>]]\<rparr>) NegZero =
     Inr ((1, True), float_t0\<lparr>table := [[\<lparr>Key = PosZero, Value = 1\<rparr>]]\<rparr>)"
  by (simp add: ex_eval zero_hash_in_range)

text \<open>
  C3, as amended. For a key type whose \<^verbatim>\<open>==\<close> never panics and holds between every key
  and itself, with a hash function that is in range: inserting the key \<open>k\<close> twice, with
  \<open>v1\<close> and then \<open>v2\<close>, gives a table on which \<^verbatim>\<open>Get(k)\<close> returns \<open>(v2, true)\<close>. The
  bucket of \<open>k\<close> has the same number of entries after the second call as after the
  first, the loop finds \<open>k\<close> at the same position \<open>j\<close> after both calls, and the second
  call changes nothing in that bucket but the value of the entry at \<open>j\<close>.
\<close>

theorem Insert_twice_overwrites:
  assumes "cmp_total cmp" and "cmp_refl cmp" and "in_range (hash t) (m t)" and "m_buckets t"
  shows "\<exists>t1 t2 j. Insert cmp t k v1 = Inr t1 \<and> Insert cmp t1 k v2 = Inr t2 \<and>
    Get cmp z t2 k = Inr ((v2, True), t2) \<and>
    length (table t2 ! nat (hash t k (m t))) = length (table t1 ! nat (hash t k (m t))) \<and>
    range_find cmp k (table t1 ! nat (hash t k (m t))) 0 = Inr (Some j) \<and>
    range_find cmp k (table t2 ! nat (hash t k (m t))) 0 = Inr (Some j) \<and>
    table t2 ! nat (hash t k (m t)) =
      (table t1 ! nat (hash t k (m t)))
        [j := (table t1 ! nat (hash t k (m t)) ! j)\<lparr>Value := v2\<rparr>]"
proof -
  let ?i = "nat (hash t k (m t))"
  have b: "0 \<le> hash t k (m t)" "hash t k (m t) < int (length (table t))"
    using assms(3,4) by (simp_all add: in_range_def m_buckets_def)
  then obtain t1 where i1: "Insert cmp t k v1 = Inr t1"
    using Insert_defined [OF assms(1), of t k v1] by blast
  note r1 = Insert_result [OF i1]
  obtain t2 where i2: "Insert cmp t1 k v2 = Inr t2"
    using Insert_defined [OF assms(1), of t1 k v2] b r1 by auto
  note kk = cmp_reflD [OF assms(2), of k]
  from Insert_makes_present [OF i1 kk]
  obtain j where j: "range_find cmp k (table t1 ! ?i) 0 = Inr (Some j)" by blast
  have j1: "range_find cmp k (table t1 ! nat (hash t1 k (m t1))) 0 = Inr (Some j)"
    using j r1 by simp
  have u: "table t2 ! ?i = (table t1 ! ?i)[j := (table t1 ! ?i ! j)\<lparr>Value := v2\<rparr>]"
    using Insert_bucket_found [OF i2 j1] r1 by simp
  have "range_find cmp k (table t2 ! ?i) 0 = Inr (Some j)"
    using j unfolding u by (simp add: range_find_overwrite)
  moreover have "Get cmp z t2 k = Inr ((v2, True), t2)" using i2 kk by (rule Insert_then_Get)
  moreover have "length (table t2 ! ?i) = length (table t1 ! ?i)" unfolding u by simp
  ultimately show ?thesis using i1 i2 j u by blast
qed

theorem Insert_twice_overwrites_witness:
  "cmp_total (go_eq :: nat comparison) \<and> cmp_refl (go_eq :: nat comparison) \<and>
   in_range (hash ex_table) (m ex_table) \<and> m_buckets ex_table \<and>
   (\<exists>t1 t2. Insert go_eq ex_table 2 8 = Inr t1 \<and> Insert go_eq t1 2 9 = Inr t2 \<and>
      Get go_eq 0 t2 2 = Inr ((9, True), t2) \<and>
      table t1 = [[\<lparr>Key = 0, Value = 5\<rparr>, \<lparr>Key = 2, Value = 8\<rparr>], []] \<and>
      table t2 = [[\<lparr>Key = 0, Value = 5\<rparr>, \<lparr>Key = 2, Value = 9\<rparr>], []])"
proof -
  have a: "in_range (hash ex_table) (m ex_table)" and b: "m_buckets ex_table"
    by (simp_all add: ex_table_def ex_hash_in_range m_buckets_def)
  from Insert_twice_overwrites [OF go_eq_props(1,2) a b, of 2 8 9 0]
  obtain t1 t2 j where i1: "Insert go_eq ex_table 2 8 = Inr t1"
    and i2: "Insert go_eq t1 2 9 = Inr t2"
    and g: "Get go_eq 0 t2 2 = Inr ((9, True), t2)"
    by blast
  have t1: "t1 = ex_table\<lparr>table := [[\<lparr>Key = 0, Value = 5\<rparr>, \<lparr>Key = 2, Value = 8\<rparr>], []]\<rparr>"
    using i1 by (auto simp: ex_eval)
  have "table t2 = [[\<lparr>Key = 0, Value = 5\<rparr>, \<lparr>Key = 2, Value = 9\<rparr>], []]"
    using i2 unfolding t1 by (auto simp: ex_eval)
  with a b i1 i2 g t1 show ?thesis by (simp add: go_eq_props)
qed

text \<open>
  Without the restriction on the key type the statement fails. With \<^verbatim>\<open>float64\<close> keys,
  \<^verbatim>\<open>Insert(NaN, 1)\<close> and then \<^verbatim>\<open>Insert(NaN, 2)\<close> on the empty table leave a bucket of one
  entry after the first call and of two entries after the second, and \<^verbatim>\<open>Get(NaN)\<close>
  returns \<open>(0, false)\<close>.
\<close>

theorem Insert_twice_overwrites_counterexample:
  "in_range (hash float_t0) (m float_t0) \<and> m_buckets float_t0 \<and>
   Insert float_eq float_t0 NaN 1 = Inr float_t1 \<and>
   Insert float_eq float_t1 NaN 2 = Inr float_t2 \<and>
   Get float_eq 0 float_t2 NaN = Inr ((0, False), float_t2) \<and>
   length (table float_t1 ! nat (hash float_t0 NaN (m float_t0))) = 1 \<and>
   length (table float_t2 ! nat (hash float_t0 NaN (m float_t0))) = 2"
  by (simp add: ex_eval zero_hash_in_range in_range_def)

text \<open>
  C4, as amended. For a key type whose \<^verbatim>\<open>==\<close> never panics and holds between every key
  and itself, with a hash function that is in range for every key and a bucket count
  that \<^verbatim>\<open>make\<close> accepts: every run of \<^verbatim>\<open>Insert\<close> and \<^verbatim>\<open>Get\<close> operations on a freshly
  constructed table returns, and in the table it reaches every entry with key \<open>k\<close> lies
  in the bucket at index \<open>h k n\<close>, and it is the only entry with that key in the whole
  table: any entry with key \<open>k\<close> is at the same bucket and the same position. Where
  \<^verbatim>\<open>==\<close> moreover holds only between identical keys, it is also the only entry whose
  key compares equal to \<open>k\<close>.
\<close>

theorem key_in_one_bucket_once:
  assumes "cmp_total cmp" and "cmp_refl cmp" and "in_range h n" and "n \<le> makeslice_max"
  shows "\<exists>t. from_New cmp z n h xs = Inr t \<and>
    (\<forall>i j k. entry_at t i j k \<longrightarrow>
       int i = h k n \<and> (\<forall>i' j'. entry_at t i' j' k \<longrightarrow> i' = i \<and> j' = j) \<and>
       (cmp_sound cmp \<longrightarrow>
          (\<forall>i' j'. i' < length (table t) \<and> j' < length (table t ! i') \<and>
              cmp k (Key (table t ! i' ! j')) = Some True \<longrightarrow>
            i' = i \<and> j' = j)))"
proof -
  from from_New_defined [OF assms(1,3,4), of z xs]
  obtain t where t: "from_New cmp z n h xs = Inr t" by blast
  note inv = from_New_bucket_inv [OF assms(2) t]
  note f = from_New_frame [OF t]
  have 1: "int i = h k n" if "entry_at t i j k" for i j k
    using bucket_inv_hash [OF inv that] f by simp
  have 2: "i' = i \<and> j' = j" if "entry_at t i j k" and "entry_at t i' j' k" for i j k i' j'
    using inv that by (rule bucket_inv_unique)
  have 3: "i' = i \<and> j' = j"
    if e: "entry_at t i j k" and s: "cmp_sound cmp" and "i' < length (table t)"
      and "j' < length (table t ! i')" and c: "cmp k (Key (table t ! i' ! j')) = Some True"
    for i j k i' j'
  proof -
    have "k = Key (table t ! i' ! j')" using s c by (rule cmp_soundD)
    with that have "entry_at t i' j' k" by (simp add: entry_at_def)
    with e show ?thesis by (rule 2)
  qed
  from t 1 2 3 show ?thesis by blast
qed

theorem key_in_one_bucket_once_witness:
  "cmp_total (go_eq :: nat comparison) \<and> cmp_refl (go_eq :: nat comparison) \<and>
   in_range ex_hash 2 \<and> 2 \<le> makeslice_max \<and> cmp_sound (go_eq :: nat comparison) \<and>
   (\<exists>t. from_New go_eq (0::int) 2 ex_hash [OpInsert 0 5, OpInsert 2 7, OpInsert 0 9] = Inr t \<and>
      table t = [[\<lparr>Key = 0, Value = 9\<rparr>, \<lparr>Key = 2, Value = 7\<rparr>], []] \<and>
      entry_at t 0 1 2 \<and> int 0 = ex_hash 2 2 \<and> \<not> entry_at t 0 0 2 \<and> \<not> entry_at t 1 0 2 \<and>
      go_eq 2 (Key (table t ! 0 ! 0)) \<noteq> Some True)"
proof -
  let ?xs = "[OpInsert (0::nat) (5::int), OpInsert 2 7, OpInsert 0 9]"
  have a: "in_range ex_hash 2" by (simp add: ex_hash_in_range)
  have l: "2 \<le> makeslice_max" by (simp add: makeslice_max_value)
  have s: "cmp_sound (go_eq :: nat comparison)" by (rule go_eq_props)
  from key_in_one_bucket_once [OF go_eq_props(1,2) a l, of 0 ?xs]
  obtain t where t: "from_New go_eq 0 2 ex_hash ?xs = Inr t"
    and u: "\<And>i j k. entry_at t i j k \<Longrightarrow>
       int i = ex_hash k 2 \<and> (\<forall>i' j'. entry_at t i' j' k \<longrightarrow> i' = i \<and> j' = j) \<and>
       (cmp_sound (go_eq :: nat comparison) \<longrightarrow>
          (\<forall>i' j'. i' < length (table t) \<and> j' < length (table t ! i') \<and>
              go_eq k (Key (table t ! i' ! j')) = Some True \<longrightarrow>
            i' = i \<and> j' = j))"
    by blast
  have tb: "table t = [[\<lparr>Key = 0, Value = 9\<rparr>, \<lparr>Key = 2, Value = 7\<rparr>], []]"
    using t by (auto simp: ex_eval)
  then have e: "entry_at t 0 1 2" by (simp add: entry_at_def)
  from u [OF e] have 1: "int 0 = ex_hash 2 2" and 2: "\<not> entry_at t 0 0 2"
    and 3: "\<not> entry_at t 1 0 2" by auto
  from u [OF e] s have "\<And>i' j'. i' < length (table t) \<Longrightarrow> j' < length (table t ! i') \<Longrightarrow>
      go_eq 2 (Key (table t ! i' ! j')) = Some True \<Longrightarrow> i' = 0 \<and> j' = 1"
    by blast
  from this [of 0 0] have 4: "go_eq 2 (Key (table t ! 0 ! 0)) \<noteq> Some True"
    using tb by auto
  from a l t tb e 1 2 3 4 show ?thesis by (simp add: go_eq_props)
qed

text \<open>
  Without the restriction on the key type the statement fails. With \<^verbatim>\<open>float64\<close> keys,
  \<^verbatim>\<open>Insert(NaN, 1)\<close> and then \<^verbatim>\<open>Insert(NaN, 2)\<close> on a freshly constructed table reach a
  table with two entries of key NaN, at positions \<open>0\<close> and \<open>1\<close> of bucket \<open>0\<close>. With a
  hash function that goes by the sign bit, \<^verbatim>\<open>Insert(+0.0, 1)\<close> and then \<^verbatim>\<open>Insert(-0.0, 2)\<close>
  reach a table that holds the two zeros, which are equal keys, in two buckets.
\<close>

theorem key_in_one_bucket_once_counterexample:
  "in_range (zero_hash :: float_key \<Rightarrow> int \<Rightarrow> int) 1 \<and> 1 \<le> makeslice_max \<and>
   from_New float_eq 0 1 zero_hash [OpInsert NaN 1, OpInsert NaN 2] = Inr float_t2 \<and>
   entry_at float_t2 0 0 NaN \<and> entry_at float_t2 0 1 NaN \<and>
   in_range sign_hash 2 \<and> 2 \<le> makeslice_max \<and>
   from_New float_eq 0 2 sign_hash [OpInsert PosZero 1, OpInsert NegZero 2] = Inr zeros_table \<and>
   entry_at zeros_table 0 0 PosZero \<and> entry_at zeros_table 1 0 NegZero \<and>
   float_eq PosZero NegZero = Some True"
  by (simp add: ex_eval zero_hash_in_range in_range_def)




text \<open>
  C6, as amended. For a key type whose \<^verbatim>\<open>==\<close> never panics and holds only between
  identical keys, with a hash function that is in range and a bucket count that \<^verbatim>\<open>make\<close>
  accepts: when the key \<open>k\<close> is not in its target bucket, \<^verbatim>\<open>Insert(k, v)\<close> appends the
  entry \<open>(k, v)\<close> at the end of the bucket at index \<open>h k n\<close> and changes nothing else.
  Where \<^verbatim>\<open>==\<close> moreover holds between every key and itself, it follows that in the table
  a run of operations reaches from a freshly constructed table, the keys of bucket
  \<open>i\<close>, in their order in the bucket, are the keys hashing to \<open>i\<close> that the run
  inserted, in the order of their first insertion.
\<close>

theorem Insert_appends_in_order:
  assumes "cmp_total cmp" and "cmp_sound cmp" and "in_range h n" and "n \<le> makeslice_max"
  shows "(hash t = h \<and> m t = n \<and> m_buckets t \<and> k \<notin> Key ` set (table t ! nat (h k n)) \<longrightarrow>
      Insert cmp t k v =
        Inr (t\<lparr>table := (table t)
               [nat (h k n) := table t ! nat (h k n) @ [\<lparr>Key = k, Value = v\<rparr>]]\<rparr>)) \<and>
    (cmp_refl cmp \<longrightarrow>
       (\<exists>t'. from_New cmp z n h xs = Inr t' \<and>
          (\<forall>i < nat n. map Key (table t' ! i) =
             first_occurrences (filter (\<lambda>k. h k n = int i) (inserted_keys xs)))))"
proof (intro conjI impI)
  assume a: "hash t = h \<and> m t = n \<and> m_buckets t \<and> k \<notin> Key ` set (table t ! nat (h k n))"
  then have b: "0 \<le> hash t k (m t)" "hash t k (m t) < int (length (table t))"
    using assms(3) by (simp_all add: in_range_def m_buckets_def)
  have "cmp k (Key e) = Some False" if "e \<in> set (table t ! nat (h k n))" for e
  proof -
    have "cmp k (Key e) \<noteq> None" using assms(1) by (rule cmp_totalD)
    moreover have "cmp k (Key e) \<noteq> Some True"
      using cmp_soundD [OF assms(2), of k "Key e"] that a by blast
    ultimately show ?thesis by (cases "cmp k (Key e)") auto
  qed
  then have "range_find cmp k (table t ! nat (h k n)) 0 = Inr None"
    by (simp add: range_find_None)
  then show "Insert cmp t k v =
        Inr (t\<lparr>table := (table t)
               [nat (h k n) := table t ! nat (h k n) @ [\<lparr>Key = k, Value = v\<rparr>]]\<rparr>)"
    using a b by (simp add: Insert_def Let_def)
next
  assume r: "cmp_refl cmp"
  have c: "cmp = go_eq" using assms(1) r assms(2) by (rule cmp_is_go_eq)
  from from_New_defined [OF assms(1,3,4), of z xs]
  obtain t' where t: "from_New cmp z n h xs = Inr t'" by blast
  then have "from_New go_eq z n h xs = Inr t'" by (simp only: c)
  from bucket_keys_from_New [OF this] t
  show "\<exists>t'. from_New cmp z n h xs = Inr t' \<and>
       (\<forall>i < nat n. map Key (table t' ! i) =
          first_occurrences (filter (\<lambda>k. h k n = int i) (inserted_keys xs)))"
    by blast
qed

theorem Insert_appends_in_order_witness:
  "cmp_total (go_eq :: nat comparison) \<and> cmp_sound (go_eq :: nat comparison) \<and>
   in_range ex_hash 2 \<and> 2 \<le> makeslice_max \<and>
   hash ex_table = ex_hash \<and> m ex_table = 2 \<and> m_buckets ex_table \<and>
   2 \<notin> Key ` set (table ex_table ! nat (ex_hash 2 2)) \<and>
   Insert go_eq ex_table 2 7 =
     Inr (ex_table\<lparr>table := [[\<lparr>Key = 0, Value = 5\<rparr>, \<lparr>Key = 2, Value = 7\<rparr>], []]\<rparr>) \<and>
   cmp_refl (go_eq :: nat comparison) \<and>
   (\<exists>t'. from_New go_eq (0::int) 2 ex_hash
           [OpInsert 2 1, OpInsert 1 1, OpInsert 0 1, OpInsert 2 4, OpGet 0] = Inr t' \<and>
      map Key (table t' ! 0) = [2, 0] \<and> map Key (table t' ! 1) = [1])"
proof -
  let ?xs = "[OpInsert (2::nat) (1::int), OpInsert 1 1, OpInsert 0 1, OpInsert 2 4, OpGet 0]"
  have a: "in_range ex_hash 2" by (simp add: ex_hash_in_range)
  have l: "2 \<le> makeslice_max" by (simp add: makeslice_max_value)
  have r: "cmp_refl (go_eq :: nat comparison)" by (rule go_eq_props)
  have b: "hash ex_table = ex_hash \<and> m ex_table = 2 \<and> m_buckets ex_table \<and>
      2 \<notin> Key ` set (table ex_table ! nat (ex_hash 2 2))"
    by (simp add: ex_table_def ex_hash_def m_buckets_def)
  from Insert_appends_in_order [OF go_eq_props(1,3) a l, of ex_table 2 7 0 ?xs] r
  have i: "hash ex_table = ex_hash \<and> m ex_table = 2 \<and> m_buckets ex_table \<and>
      2 \<notin> Key ` set (table ex_table ! nat (ex_hash 2 2)) \<longrightarrow>
      Insert go_eq ex_table 2 7 =
        Inr (ex_table\<lparr>table := (table ex_table)
               [nat (ex_hash 2 2) := table ex_table ! nat (ex_hash 2 2) @ [\<lparr>Key = 2, Value = 7\<rparr>]]\<rparr>)"
    and "\<exists>t'. from_New go_eq 0 2 ex_hash ?xs = Inr t' \<and>
       (\<forall>i < nat 2. map Key (table t' ! i) =
          first_occurrences (filter (\<lambda>k. ex_hash k 2 = int i) (inserted_keys ?xs)))"
    by blast+
  then obtain t' where t: "from_New go_eq 0 2 ex_hash ?xs = Inr t'"
    and o: "\<And>i. i < nat 2 \<Longrightarrow> map Key (table t' ! i) =
          first_occurrences (filter (\<lambda>k. ex_hash k 2 = int i) (inserted_keys ?xs))"
    by blast
  have "map Key (table t' ! 0) = [2, 0]" using o [of 0] by (simp add: ex_hash_def)
  moreover have "map Key (table t' ! 1) = [1]" using o [of 1] by (simp add: ex_hash_def)
  moreover have "Insert go_eq ex_table 2 7 =
     Inr (ex_table\<lparr>table := [[\<lparr>Key = 0, Value = 5\<rparr>, \<lparr>Key = 2, Value = 7\<rparr>], []]\<rparr>)"
    using i b by (simp add: ex_table_def ex_hash_def)
  ultimately show ?thesis using a l b t by (auto simp: go_eq_props)
qed

text \<open>
  Without the restriction on the key type the statement fails. With keys of an interface
  type, \<^verbatim>\<open>Insert\<close> of the key \<^verbatim>\<open>[]int{2}\<close>, which is not in its target bucket, panics in the
  comparison with the stored key \<^verbatim>\<open>[]int{1}\<close> and appends nothing. With \<^verbatim>\<open>float64\<close> keys,
  \<^verbatim>\<open>Insert(-0.0, 2)\<close> into the bucket that holds \<^verbatim>\<open>+0.0\<close> and not \<^verbatim>\<open>-0.0\<close> overwrites the
  entry of \<^verbatim>\<open>+0.0\<close> and appends nothing; and after \<^verbatim>\<open>Insert(NaN, 1)\<close> and
  \<^verbatim>\<open>Insert(NaN, 2)\<close> the keys of the bucket are NaN twice, while the keys inserted, in
  the order of their first insertion, are NaN once.
\<close>

theorem Insert_appends_in_order_counterexample:
  "in_range (zero_hash :: any_key \<Rightarrow> int \<Rightarrow> int) 1 \<and> hash any_t1 = zero_hash \<and>
   m any_t1 = 1 \<and> m_buckets any_t1 \<and>
   SliceKey [2] \<notin> Key ` set (table any_t1 ! nat (zero_hash (SliceKey [2]) 1)) \<and>
   Insert any_eq any_t1 (SliceKey [2]) 5 = Inl UncomparableType \<and>
   in_range (zero_hash :: float_key \<Rightarrow> int \<Rightarrow> int) 1 \<and> hash float_z1 = zero_hash \<and>
   m float_z1 = 1 \<and> m_buckets float_z1 \<and>
   NegZero \<notin> Key ` set (table float_z1 ! nat (zero_hash NegZero 1)) \<and>
   Insert float_eq float_z1 NegZero 2 =
     Inr (float_z1\<lparr>table := [[\<lparr>Key = PosZero, Value = 2\<rparr>]]\<rparr>) \<and>
   1 \<le> makeslice_max \<and>
   from_New float_eq 0 1 zero_hash [OpInsert NaN 1, OpInsert NaN 2] = Inr float_t2 \<and>
   map Key (table float_t2 ! 0) = [NaN, NaN] \<and>
   first_occurrences
     (filter (\<lambda>k. zero_hash k 1 = int 0) (inserted_keys [OpInsert NaN (1::int), OpInsert NaN 2])) =
   [NaN]"
  by (simp add: ex_eval zero_hash_in_range)

text \<open>
  C7. With a hash function that is in range for every key, whatever the comparison of
  the key type does, no run of operations on a freshly constructed table ends in an
  index out of bounds, and on every table such a run reaches no further \<^verbatim>\<open>Get\<close> or
  \<^verbatim>\<open>Insert\<close> indexes out of bounds. When moreover \<^verbatim>\<open>make\<close> accepts the bucket count and
  \<^verbatim>\<open>==\<close> never panics, the run returns, and on the table reached every further \<^verbatim>\<open>Get\<close>
  and \<^verbatim>\<open>Insert\<close> returns as well. Neither operation checks the hash function's result:
  on any table \<open>s\<close> and key \<open>k\<close> whose hash value is negative or not below the number
  of buckets, both operations index out of bounds, which in Go is a run-time panic; no
  result is defined there.
\<close>

theorem indexing_in_bounds:
  "(in_range h n \<longrightarrow>
      from_New cmp z n h xs \<noteq> Inl IndexOutOfRange \<and>
      (\<forall>t. from_New cmp z n h xs = Inr t \<longrightarrow>
         (\<forall>k v. Get cmp z t k \<noteq> Inl IndexOutOfRange \<and>
            Insert cmp t k v \<noteq> Inl IndexOutOfRange))) \<and>
   (in_range h n \<and> n \<le> makeslice_max \<and> cmp_total cmp \<longrightarrow>
      (\<exists>t. from_New cmp z n h xs = Inr t \<and>
         (\<forall>k v. (\<exists>r. Get cmp z t k = Inr (r, t)) \<and> (\<exists>t'. Insert cmp t k v = Inr t')))) \<and>
   (hash s k (m s) < 0 \<or> int (length (table s)) \<le> hash s k (m s) \<longrightarrow>
      Get cmp z s k = Inl IndexOutOfRange \<and> Insert cmp s k v = Inl IndexOutOfRange)"
proof (intro conjI impI allI)
  assume a: "in_range h n"
  then show "from_New cmp z n h xs \<noteq> Inl IndexOutOfRange" by (rule from_New_in_bounds)
next
  fix t k' v'
  assume a: "in_range h n" and t: "from_New cmp z n h xs = Inr t"
  note f = from_New_frame [OF t]
  have b: "0 \<le> hash t k' (m t) \<and> hash t k' (m t) < int (length (table t))"
    using a f by (simp add: in_range_def)
  show "Get cmp z t k' \<noteq> Inl IndexOutOfRange"
    using Get_error [of cmp z t k' IndexOutOfRange] b by auto
  show "Insert cmp t k' v' \<noteq> Inl IndexOutOfRange"
    using Insert_error [of cmp t k' v' IndexOutOfRange] b by auto
next
  assume a: "in_range h n \<and> n \<le> makeslice_max \<and> cmp_total cmp"
  then have tot: "cmp_total cmp" and rng: "in_range h n" and le: "n \<le> makeslice_max"
    by simp_all
  from from_New_defined [OF tot rng le, of z xs]
  obtain t where t: "from_New cmp z n h xs = Inr t" by blast
  note f = from_New_frame [OF t]
  have b: "0 \<le> hash t k (m t)" "hash t k (m t) < int (length (table t))" for k
    using rng f by (simp_all add: in_range_def)
  have "\<exists>r. Get cmp z t k = Inr (r, t)" for k
    using Get_defined [OF tot, of t k z] b [of k] by simp
  moreover have "\<exists>t'. Insert cmp t k v = Inr t'" for k v
    using Insert_defined [OF tot, of t k v] b [of k] by simp
  ultimately show "\<exists>t. from_New cmp z n h xs = Inr t \<and>
         (\<forall>k v. (\<exists>r. Get cmp z t k = Inr (r, t)) \<and> (\<exists>t'. Insert cmp t k v = Inr t'))"
    using t by blast
next
  assume "hash s k (m s) < 0 \<or> int (length (table s)) \<le> hash s k (m s)"
  then show "Get cmp z s k = Inl IndexOutOfRange" by (rule Get_out_of_range)
next
  assume "hash s k (m s) < 0 \<or> int (length (table s)) \<le> hash s k (m s)"
  then show "Insert cmp s k v = Inl IndexOutOfRange" by (rule Insert_out_of_range)
qed

theorem indexing_in_bounds_witness:
  "in_range (zero_hash :: any_key \<Rightarrow> int \<Rightarrow> int) 1 \<and>
   from_New any_eq (0::int) 1 zero_hash [OpInsert (SliceKey [1]) 1, OpGet (SliceKey [2])] =
     Inl UncomparableType \<and>
   from_New any_eq 0 1 zero_hash [OpInsert (SliceKey [1]) 1] = Inr any_t1 \<and>
   Get any_eq 0 any_t1 (SliceKey [2]) \<noteq> Inl IndexOutOfRange \<and>
   Insert any_eq any_t1 (IntKey 3) 4 \<noteq> Inl IndexOutOfRange \<and>
   in_range ex_hash 2 \<and> 2 \<le> makeslice_max \<and> cmp_total (go_eq :: nat comparison) \<and>
   (\<exists>t. from_New go_eq (0::int) 2 ex_hash [OpInsert 0 5] = Inr t \<and>
      (\<exists>r. Get go_eq 0 t 7 = Inr (r, t)) \<and> (\<exists>t'. Insert go_eq t 7 1 = Inr t')) \<and>
   int (length (table bad_table)) \<le> hash bad_table 5 (m bad_table) \<and>
   Get go_eq 0 bad_table 5 = Inl IndexOutOfRange \<and>
   Insert go_eq bad_table 5 1 = Inl IndexOutOfRange"
proof -
  have a: "in_range ex_hash 2" by (simp add: ex_hash_in_range)
  have l: "2 \<le> makeslice_max" by (simp add: makeslice_max_value)
  have b: "int (length (table bad_table)) \<le> hash bad_table 5 (m bad_table)"
    by (simp add: bad_table_def id_hash_def)
  have c: "in_range (zero_hash :: any_key \<Rightarrow> int \<Rightarrow> int) 1" by (simp add: zero_hash_in_range)
  have r: "from_New any_eq (0::int) 1 zero_hash [OpInsert (SliceKey [1]) 1] = Inr any_t1"
    by (simp add: ex_eval)
  have p: "from_New any_eq (0::int) 1 zero_hash
      [OpInsert (SliceKey [1]) 1, OpGet (SliceKey [2])] = Inl UncomparableType"
    by (simp add: ex_eval)
  from indexing_in_bounds [of zero_hash 1 any_eq 0 "[OpInsert (SliceKey [1]) 1]"] c r
  have 1: "Get any_eq 0 any_t1 (SliceKey [2]) \<noteq> Inl IndexOutOfRange"
    and 2: "Insert any_eq any_t1 (IntKey 3) 4 \<noteq> Inl IndexOutOfRange"
    by blast+
  have tot: "cmp_total (go_eq :: nat comparison)" by (rule go_eq_props)
  from indexing_in_bounds [of ex_hash 2 go_eq 0 "[OpInsert 0 5]" bad_table 5 1] a l b tot
  have 4: "Get go_eq 0 bad_table 5 = Inl IndexOutOfRange"
    and 5: "Insert go_eq bad_table 5 1 = Inl IndexOutOfRange"
    and "\<exists>t. from_New go_eq (0::int) 2 ex_hash [OpInsert 0 5] = Inr t \<and>
         (\<forall>k v. (\<exists>r. Get go_eq 0 t k = Inr (r, t)) \<and> (\<exists>t'. Insert go_eq t k v = Inr t'))"
    by blast+
  then have 3: "\<exists>t. from_New go_eq (0::int) 2 ex_hash [OpInsert 0 5] = Inr t \<and>
      (\<exists>r. Get go_eq 0 t 7 = Inr (r, t)) \<and> (\<exists>t'. Insert go_eq t 7 1 = Inr t')"
    by blast
  from a l b c r p 1 2 3 4 5 show ?thesis by (simp add: go_eq_props)
qed

text \<open>
  C8. \<^verbatim>\<open>Get(k)\<close> leaves the table as it was, on every table. Whenever \<^verbatim>\<open>Insert(k, v)\<close>
  returns, whatever the comparison of the key type does, the table has the same bucket
  count, the same hash function and the same number of buckets, and every bucket but
  the one at index \<open>hash t k (m t)\<close> is as before. With a hash function that is in range
  and a comparison that never panics, \<^verbatim>\<open>Insert(k, v)\<close> does return such a table.
\<close>

theorem operations_frame:
  "(\<forall>r s. Get cmp z t k = Inr (r, s) \<longrightarrow> s = t) \<and>
   (\<forall>t'. Insert cmp t k v = Inr t' \<longrightarrow>
      m t' = m t \<and> hash t' = hash t \<and> length (table t') = length (table t) \<and>
      (\<forall>i. int i \<noteq> hash t k (m t) \<longrightarrow> table t' ! i = table t ! i)) \<and>
   (in_range (hash t) (m t) \<and> m_buckets t \<and> cmp_total cmp \<longrightarrow>
      (\<exists>t'. Insert cmp t k v = Inr t' \<and> m t' = m t \<and> hash t' = hash t \<and>
         length (table t') = length (table t) \<and>
         (\<forall>i. int i \<noteq> hash t k (m t) \<longrightarrow> table t' ! i = table t ! i)))"
proof -
  have g: "\<forall>r s. Get cmp z t k = Inr (r, s) \<longrightarrow> s = t"
    by (auto dest: Get_state)
  have f: "m t' = m t \<and> hash t' = hash t \<and> length (table t') = length (table t) \<and>
      (\<forall>i. int i \<noteq> hash t k (m t) \<longrightarrow> table t' ! i = table t ! i)"
    if ins: "Insert cmp t k v = Inr t'" for t'
  proof -
    note r = Insert_result [OF ins]
    have "table t' ! i = table t ! i" if "int i \<noteq> hash t k (m t)" for i
      using Insert_other_bucket [OF ins, of i] that r(1) by auto
    with r show ?thesis by simp
  qed
  have d: "\<exists>t'. Insert cmp t k v = Inr t' \<and> m t' = m t \<and> hash t' = hash t \<and>
         length (table t') = length (table t) \<and>
         (\<forall>i. int i \<noteq> hash t k (m t) \<longrightarrow> table t' ! i = table t ! i)"
    if a: "in_range (hash t) (m t) \<and> m_buckets t \<and> cmp_total cmp"
  proof -
    from a have "0 \<le> hash t k (m t)" and "hash t k (m t) < int (length (table t))"
      and tot: "cmp_total cmp"
      by (simp_all add: in_range_def m_buckets_def)
    then obtain t' where ins: "Insert cmp t k v = Inr t'"
      using Insert_defined [OF tot, of t k v] by blast
    with f [OF ins] show ?thesis by blast
  qed
  from g f d show ?thesis by blast
qed

theorem operations_frame_witness:
  "Get go_eq 0 ex_table 2 = Inr ((0, False), ex_table) \<and>
   in_range (hash ex_table) (m ex_table) \<and> m_buckets ex_table \<and>
   cmp_total (go_eq :: nat comparison) \<and>
   (\<exists>t'. Insert go_eq ex_table 2 7 = Inr t' \<and> m t' = 2 \<and> hash t' = ex_hash \<and>
      length (table t') = 2 \<and> table t' ! 1 = [] \<and>
      table t' ! 0 = [\<lparr>Key = 0, Value = 5\<rparr>, \<lparr>Key = 2, Value = 7\<rparr>]) \<and>
   Insert float_eq float_t1 NaN 2 = Inr float_t2 \<and> m float_t2 = m float_t1 \<and>
   hash float_t2 = hash float_t1 \<and> length (table float_t2) = length (table float_t1)"
proof -
  have g: "Get go_eq 0 ex_table 2 = Inr ((0, False), ex_table)"
    by (simp add: Get_def ex_table_def ex_hash_def go_eq_def)
  have a: "in_range (hash ex_table) (m ex_table) \<and> m_buckets ex_table \<and>
      cmp_total (go_eq :: nat comparison)"
    by (simp add: ex_table_def ex_hash_in_range m_buckets_def go_eq_props)
  from operations_frame [of go_eq 0 ex_table 2 7] a
  obtain t' where i: "Insert go_eq ex_table 2 7 = Inr t'" and "m t' = m ex_table"
    and "hash t' = hash ex_table" and "length (table t') = length (table ex_table)"
    and o: "\<And>i. int i \<noteq> hash ex_table 2 (m ex_table) \<Longrightarrow> table t' ! i = table ex_table ! i"
    by blast
  then have "m t' = 2" and "hash t' = ex_hash" and "length (table t') = 2"
    by (simp_all add: ex_table_def)
  moreover have "table t' ! 1 = []" using o [of 1] by (simp add: ex_table_def ex_hash_def)
  moreover have "table t' ! 0 = [\<lparr>Key = 0, Value = 5\<rparr>, \<lparr>Key = 2, Value = 7\<rparr>]"
    using i by (auto simp: Insert_def ex_table_def ex_hash_def go_eq_def)
  ultimately have e: "\<exists>t'. Insert go_eq ex_table 2 7 = Inr t' \<and> m t' = 2 \<and> hash t' = ex_hash \<and>
      length (table t') = 2 \<and> table t' ! 1 = [] \<and>
      table t' ! 0 = [\<lparr>Key = 0, Value = 5\<rparr>, \<lparr>Key = 2, Value = 7\<rparr>]"
    using i by blast
  have f: "Insert float_eq float_t1 NaN 2 = Inr float_t2" by (simp add: ex_eval)
  from operations_frame [of float_eq 0 float_t1 NaN 2] f
  have "m float_t2 = m float_t1 \<and> hash float_t2 = hash float_t1 \<and>
      length (table float_t2) = length (table float_t1)"
    by blast
  with g a e f show ?thesis by simp
qed

text \<open>
  C9. Whatever the comparison of the key type does, one \<^verbatim>\<open>Insert(k, v)\<close> that returns
  leaves the length of every bucket unchanged, except that the target bucket grows by
  exactly one entry when no entry in it compares equal to \<open>k\<close> (the append case; in
  the overwrite case it keeps its length). Where \<^verbatim>\<open>==\<close> is equality of key values, the
  append case is the case that \<open>k\<close> is not a key of the bucket. Across every run of
  \<^verbatim>\<open>Insert\<close> and \<^verbatim>\<open>Get\<close> operations no entry is removed: the keys of each bucket before
  the run are a prefix of its keys after the run, so no bucket gets shorter.
\<close>

theorem buckets_only_grow:
  "(\<forall>t'. Insert cmp t k v = Inr t' \<longrightarrow>
      length (table t') = length (table t) \<and>
      (\<forall>i < length (table t). length (table t' ! i) =
         (if int i = hash t k (m t) \<and> (\<forall>e \<in> set (table t ! i). cmp k (Key e) = Some False)
          then Suc (length (table t ! i)) else length (table t ! i)))) \<and>
   (\<forall>t'. Insert go_eq t k v = Inr t' \<longrightarrow>
      length (table t') = length (table t) \<and>
      (\<forall>i < length (table t). length (table t' ! i) =
         (if int i = hash t k (m t) \<and> k \<notin> Key ` set (table t ! i)
          then Suc (length (table t ! i)) else length (table t ! i)))) \<and>
   (\<forall>t'. run cmp z t xs = Inr t' \<longrightarrow>
      length (table t') = length (table t) \<and>
      (\<forall>i < length (table t).
         prefix (map Key (table t ! i)) (map Key (table t' ! i)) \<and>
         length (table t ! i) \<le> length (table t' ! i)))"
proof (intro conjI impI allI)
  fix t' assume "Insert cmp t k v = Inr t'"
  then show "length (table t') = length (table t)" by (rule Insert_result)
next
  fix t' i assume "Insert cmp t k v = Inr t'" and "i < length (table t)"
  then show "length (table t' ! i) =
         (if int i = hash t k (m t) \<and> (\<forall>e \<in> set (table t ! i). cmp k (Key e) = Some False)
          then Suc (length (table t ! i)) else length (table t ! i))"
    by (rule Insert_bucket_length)
next
  fix t' assume "Insert go_eq t k v = Inr t'"
  then show "length (table t') = length (table t)" by (rule Insert_result)
next
  fix t' i assume "Insert go_eq t k v = Inr t'" and "i < length (table t)"
  from Insert_bucket_length [OF this]
  show "length (table t' ! i) =
         (if int i = hash t k (m t) \<and> k \<notin> Key ` set (table t ! i)
          then Suc (length (table t ! i)) else length (table t ! i))"
    by (auto simp: go_eq_def)
next
  fix t' assume "run cmp z t xs = Inr t'"
  then show "length (table t') = length (table t)" by (simp add: run_frame)
next
  fix t' i assume r: "run cmp z t xs = Inr t'"
  then show p: "prefix (map Key (table t ! i)) (map Key (table t' ! i))"
    by (rule run_bucket_prefix)
  from prefix_length_le [OF p] show "length (table t ! i) \<le> length (table t' ! i)"
    by simp
qed

theorem buckets_only_grow_witness:
  "(\<exists>t'. Insert go_eq ex_table 2 7 = Inr t' \<and> length (table t') = 2 \<and>
      length (table t' ! 0) = 2 \<and> length (table t' ! 1) = 0) \<and>
   (\<exists>t'. run go_eq 0 ex_table [OpInsert 3 1, OpInsert 0 6, OpGet 9] = Inr t' \<and>
      length (table t') = 2 \<and> prefix [0] (map Key (table t' ! 0)) \<and>
      1 \<le> length (table t' ! 0) \<and> table t' ! 1 = [\<lparr>Key = 3, Value = 1\<rparr>]) \<and>
   Insert float_eq float_t1 NaN 2 = Inr float_t2 \<and>
   length (table float_t2 ! 0) = Suc (length (table float_t1 ! 0))"
proof -
  let ?xs = "[OpInsert (3::nat) (1::int), OpInsert 0 6, OpGet 9]"
  let ?t1 = "ex_table\<lparr>table := [[\<lparr>Key = 0, Value = 5\<rparr>, \<lparr>Key = 2, Value = 7\<rparr>], []]\<rparr>"
  let ?t2 = "ex_table\<lparr>table := [[\<lparr>Key = 0, Value = 6\<rparr>], [\<lparr>Key = 3, Value = 1\<rparr>]]\<rparr>"
  have i: "Insert go_eq ex_table 2 7 = Inr ?t1"
    by (simp add: Insert_def ex_table_def ex_hash_def go_eq_def)
  have r: "run go_eq 0 ex_table ?xs = Inr ?t2"
    by (simp add: Insert_def Get_def ex_table_def ex_hash_def go_eq_def)
  from buckets_only_grow [of go_eq ex_table 2 7 0 ?xs] i r
  have 1: "length (table ?t1) = length (table ex_table)"
    and 2: "\<And>i. i < length (table ex_table) \<Longrightarrow> length (table ?t1 ! i) =
         (if int i = hash ex_table 2 (m ex_table) \<and> 2 \<notin> Key ` set (table ex_table ! i)
          then Suc (length (table ex_table ! i)) else length (table ex_table ! i))"
    and 3: "length (table ?t2) = length (table ex_table)"
    and 4: "\<And>i. i < length (table ex_table) \<Longrightarrow>
         prefix (map Key (table ex_table ! i)) (map Key (table ?t2 ! i)) \<and>
         length (table ex_table ! i) \<le> length (table ?t2 ! i)"
    by blast+
  have "length (table ?t1) = 2" using 1 by (simp add: ex_table_def)
  moreover have "length (table ?t1 ! 0) = 2" using 2 [of 0] by (simp add: ex_table_def ex_hash_def)
  moreover have "length (table ?t1 ! 1) = 0" using 2 [of 1] by (simp add: ex_table_def ex_hash_def)
  moreover have "length (table ?t2) = 2" using 3 by (simp add: ex_table_def)
  moreover have "prefix [0] (map Key (table ?t2 ! 0)) \<and> 1 \<le> length (table ?t2 ! 0)"
    using 4 [of 0] by (simp add: ex_table_def)
  moreover have "table ?t2 ! 1 = [\<lparr>Key = 3, Value = 1\<rparr>]" by simp
  ultimately have e: "(\<exists>t'. Insert go_eq ex_table 2 7 = Inr t' \<and> length (table t') = 2 \<and>
      length (table t' ! 0) = 2 \<and> length (table t' ! 1) = 0) \<and>
   (\<exists>t'. run go_eq 0 ex_table ?xs = Inr t' \<and>
      length (table t') = 2 \<and> prefix [0] (map Key (table t' ! 0)) \<and>
      1 \<le> length (table t' ! 0) \<and> table t' ! 1 = [\<lparr>Key = 3, Value = 1\<rparr>])"
    using i r by blast
  have f: "Insert float_eq float_t1 NaN 2 = Inr float_t2" by (simp add: ex_eval)
  from buckets_only_grow [of float_eq float_t1 NaN 2 0 "[]"] f
  have "\<And>i. i < length (table float_t1) \<Longrightarrow> length (table float_t2 ! i) =
         (if int i = hash float_t1 NaN (m float_t1) \<and>
             (\<forall>e \<in> set (table float_t1 ! i). float_eq NaN (Key e) = Some False)
          then Suc (length (table float_t1 ! i)) else length (table float_t1 ! i))"
    by blast
  from this [of 0] have "length (table float_t2 ! 0) = Suc (length (table float_t1 ! 0))"
    by (simp add: float_t1_def zero_hash_def float_eq_def)
  with e f show ?thesis by simp
qed

text \<open>
  C10, as amended. For a key type whose \<^verbatim>\<open>==\<close> never panics, holds between every key
  and itself and holds only between identical keys, with a hash function that is in
  range and a bucket count that \<^verbatim>\<open>make\<close> accepts: after a run that inserts the key \<open>k\<close>
  with the zero value \<open>z\<close> of the value type and does not insert \<open>k\<close> again, \<^verbatim>\<open>Get(k)\<close>
  returns \<open>(z, true)\<close>, while \<^verbatim>\<open>Get(k')\<close> for a key \<open>k'\<close> the run never inserted returns
  \<open>(z, false)\<close>: the value is the same and only the flag tells the two cases apart.
\<close>

theorem zero_value_found:
  assumes "cmp_total cmp" and "cmp_refl cmp" and "cmp_sound cmp"
    and "in_range h n" and "n \<le> makeslice_max" and "k \<notin> set (inserted_keys ys)"
    and "k' \<notin> set (inserted_keys (xs @ OpInsert k z # ys))"
  shows "\<exists>t. from_New cmp z n h (xs @ OpInsert k z # ys) = Inr t \<and>
    Get cmp z t k = Inr ((z, True), t) \<and> Get cmp z t k' = Inr ((z, False), t)"
proof -
  from from_New_defined [OF assms(1,4,5), of z "xs @ OpInsert k z # ys"]
  obtain t where t: "from_New cmp z n h (xs @ OpInsert k z # ys) = Inr t" by blast
  then obtain t0 where n: "New n h = Inr t0"
    and "run cmp z t0 (xs @ OpInsert k z # ys) = Inr t"
    by (auto simp: from_New_def split: sum.splits)
  then obtain s1 s2 where "run cmp z t0 xs = Inr s1" and i: "Insert cmp s1 k z = Inr s2"
    and r: "run cmp z s2 ys = Inr t"
    by (auto simp: run_append split: sum.splits)
  have "Get cmp z s2 k = Inr ((z, True), s2)"
    using i cmp_reflD [OF assms(2)] by (rule Insert_then_Get)
  with run_Get_other [OF assms(1,3) r assms(6)] have "Get cmp z t k = Inr ((z, True), t)"
    by simp
  moreover have "Get cmp z t k' = Inr ((z, False), t)"
    using assms(1,3,4) t assms(7) by (rule Get_never_inserted)
  ultimately show ?thesis using t by blast
qed

theorem zero_value_found_witness:
  "cmp_total (go_eq :: nat comparison) \<and> cmp_refl (go_eq :: nat comparison) \<and>
   cmp_sound (go_eq :: nat comparison) \<and> in_range ex_hash 2 \<and> 2 \<le> makeslice_max \<and>
   (2::nat) \<notin> set (inserted_keys [OpInsert 0 (3::int), OpGet 2]) \<and>
   (4::nat) \<notin> set (inserted_keys ([OpInsert 1 4] @ OpInsert 2 (0::int) # [OpInsert 0 3, OpGet 2])) \<and>
   (\<exists>t. from_New go_eq (0::int) 2 ex_hash
          ([OpInsert 1 4] @ OpInsert 2 0 # [OpInsert 0 3, OpGet 2]) = Inr t \<and>
      Get go_eq 0 t 2 = Inr ((0, True), t) \<and> Get go_eq 0 t 4 = Inr ((0, False), t))"
proof -
  have a: "in_range ex_hash 2" by (simp add: ex_hash_in_range)
  have l: "2 \<le> makeslice_max" by (simp add: makeslice_max_value)
  have b: "(2::nat) \<notin> set (inserted_keys [OpInsert 0 (3::int), OpGet 2])" by simp
  have c: "(4::nat) \<notin> set (inserted_keys ([OpInsert 1 4] @ OpInsert 2 (0::int) # [OpInsert 0 3, OpGet 2]))"
    by simp
  from zero_value_found [OF go_eq_props a l b c] a l b c show ?thesis
    by (simp add: go_eq_props)
qed

text \<open>
  Without the restriction on the key type the statement fails. With \<^verbatim>\<open>float64\<close> keys,
  after \<^verbatim>\<open>Insert(NaN, 0)\<close> on a freshly constructed table \<^verbatim>\<open>Get(NaN)\<close> returns
  \<open>(0, false)\<close>: the key was inserted with the zero value and is reported absent.
\<close>

theorem zero_value_found_counterexample:
  "in_range (zero_hash :: float_key \<Rightarrow> int \<Rightarrow> int) 1 \<and> 1 \<le> makeslice_max \<and>
   from_New float_eq 0 1 zero_hash [OpInsert NaN 0] =
     Inr (float_t0\<lparr>table := [[\<lparr>Key = NaN, Value = 0\<rparr>]]\<rparr>) \<and>
   Get float_eq 0 (float_t0\<lparr>table := [[\<lparr>Key = NaN, Value = 0\<rparr>]]\<rparr>) NaN =
     Inr ((0, False), float_t0\<lparr>table := [[\<lparr>Key = NaN, Value = 0\<rparr>]]\<rparr>)"
  by (simp add: ex_eval zero_hash_in_range)

end
